theory Spec2Isabelle
  imports Main "HOL-Library.Sublist"
begin

section \<open>Python strings\<close>

text \<open>
  A Python \<open>str\<close> is a sequence of Unicode code points; a code point is a natural
  number. \<open>cp\<close> turns an ASCII literal into such a sequence.
\<close>

type_synonym pystr = "nat list"

definition cp :: "string \<Rightarrow> pystr" where
  "cp s = map of_char s"

text \<open>
  \<open>Py_UNICODE_ISSPACE\<close>, the test behind \<open>str.strip()\<close> and the regular expression
  class \<open>\s\<close>: the fixed list of CPython's \<open>_PyUnicode_IsWhitespace\<close>.
\<close>

definition is_space :: "nat \<Rightarrow> bool" where
  "is_space c \<longleftrightarrow>
     (9 \<le> c \<and> c \<le> 13) \<or> (28 \<le> c \<and> c \<le> 32) \<or> c = 133 \<or> c = 160 \<or> c = 5760 \<or>
     (8192 \<le> c \<and> c \<le> 8202) \<or> c = 8232 \<or> c = 8233 \<or> c = 8239 \<or> c = 8287 \<or> c = 12288"

text \<open>
  The other tables of the Unicode database are written out for ASCII; their rows for
  code points from 128 on, and \<open>datetime.strptime\<close>, are parameters of the model:
  \<^item> \<open>py_isalnum\<close>: \<open>Py_UNICODE_ISALNUM\<close> (the class \<open>\w\<close> without the underscore);
  \<^item> \<open>py_isdecimal\<close>: \<open>Py_UNICODE_ISDECIMAL\<close> (the class \<open>\d\<close>);
  \<^item> \<open>py_lower_in before c after\<close>: the lower-case expansion of the code point \<open>c\<close>
    standing between \<open>before\<close> and \<open>after\<close> (the context decides the final sigma);
  \<^item> \<open>py_strptime s\<close>: \<open>datetime.strptime(s, '%d %B %Y').strftime('%y.%m.%d')\<close>,
    \<open>None\<close> when \<open>strptime\<close> raises \<open>ValueError\<close>.
\<close>

record pylib =
  py_isalnum :: "nat \<Rightarrow> bool"
  py_isdecimal :: "nat \<Rightarrow> bool"
  py_lower_in :: "pystr \<Rightarrow> nat \<Rightarrow> pystr \<Rightarrow> pystr"
  py_strptime :: "pystr \<Rightarrow> pystr option"

definition is_alnum :: "pylib \<Rightarrow> nat \<Rightarrow> bool" where
  "is_alnum L c \<longleftrightarrow>
     (if c < 128 then (48 \<le> c \<and> c \<le> 57) \<or> (65 \<le> c \<and> c \<le> 90) \<or> (97 \<le> c \<and> c \<le> 122)
      else py_isalnum L c)"

definition is_word :: "pylib \<Rightarrow> nat \<Rightarrow> bool" where
  "is_word L c \<longleftrightarrow> is_alnum L c \<or> c = 95"

definition is_digit :: "pylib \<Rightarrow> nat \<Rightarrow> bool" where
  "is_digit L c \<longleftrightarrow> (if c < 128 then 48 \<le> c \<and> c \<le> 57 else py_isdecimal L c)"

definition ascii_lower :: "nat \<Rightarrow> nat" where
  "ascii_lower c = (if 65 \<le> c \<and> c \<le> 90 then c + 32 else c)"

fun lower_from :: "pylib \<Rightarrow> pystr \<Rightarrow> pystr \<Rightarrow> pystr" where
  "lower_from L pre [] = []"
| "lower_from L pre (c # cs) =
     (if c < 128 then [ascii_lower c] else py_lower_in L (rev pre) c cs)
       @ lower_from L (c # pre) cs"

definition lower :: "pylib \<Rightarrow> pystr \<Rightarrow> pystr" where
  "lower L s = lower_from L [] s"

definition strip :: "pystr \<Rightarrow> pystr" where
  "strip s = rev (dropWhile is_space (rev (dropWhile is_space s)))"

definition rstrip_char :: "nat \<Rightarrow> pystr \<Rightarrow> pystr" where
  "rstrip_char x s = rev (dropWhile (\<lambda>c. c = x) (rev s))"

text \<open>
  \<open>s.replace(old, new)\<close> for a non-empty \<open>old\<close> (it is never empty where the program
  calls it): occurrences are replaced from the left and do not overlap. The counter is
  the number of code points of the current occurrence still to be dropped.
\<close>

fun replace_from :: "nat \<Rightarrow> pystr \<Rightarrow> pystr \<Rightarrow> pystr \<Rightarrow> pystr" where
  "replace_from k old new [] = []"
| "replace_from k old new (c # cs) =
     (if 0 < k then replace_from (k - 1) old new cs
      else if prefix old (c # cs) then new @ replace_from (length old - 1) old new cs
      else c # replace_from 0 old new cs)"

definition replace :: "pystr \<Rightarrow> pystr \<Rightarrow> pystr \<Rightarrow> pystr" where
  "replace old new s = replace_from 0 old new s"

section \<open>clean_display_name\<close>

text \<open>
  The first substitution of \<open>clean_display_name\<close> deletes every match of
  \<^verbatim>\<open>\s*[-\<emdash>].*|\s*\[.*?\]|\s*\([^)]+\)|\s*:\s*$\<close>.
  Each alternative is a run of white space followed by a code point that is not white
  space, so the greedy \<open>\s*\<close> takes the whole run and the code point after it selects
  the only alternative that can match. The functions below give the length of what
  follows that code point.
\<close>

definition is_dash :: "nat \<Rightarrow> bool" where
  "is_dash c \<longleftrightarrow> c = 45 \<or> c = 8212"

definition line_rest :: "pystr \<Rightarrow> pystr" where
  \<comment> \<open>\<open>.*\<close>: the dot matches everything but the line feed\<close>
  "line_rest s = takeWhile (\<lambda>c. c \<noteq> 10) s"

fun bracket_len :: "pystr \<Rightarrow> nat option" where
  \<comment> \<open>\<open>.*?\]\<close>: the first closing bracket, on the same line\<close>
  "bracket_len [] = None"
| "bracket_len (c # cs) =
     (if c = 93 then Some 1 else if c = 10 then None else map_option Suc (bracket_len cs))"

definition paren_len :: "pystr \<Rightarrow> nat option" where
  \<comment> \<open>\<open>[^)]+\)\<close>: at least one code point, up to the first closing parenthesis\<close>
  "paren_len s =
     (let g = takeWhile (\<lambda>c. c \<noteq> 41) s
      in if g \<noteq> [] \<and> length g < length s then Some (length g + 1) else None)"

definition colon_len :: "pystr \<Rightarrow> nat option" where
  \<comment> \<open>\<open>\s*$\<close>: only white space up to the end of the string\<close>
  "colon_len s = (if list_all is_space s then Some (length s) else None)"

definition annotation_match :: "pystr \<Rightarrow> nat option" where
  \<comment> \<open>the length of the match that starts at the head of the string, if there is one\<close>
  "annotation_match t =
     (let w = length (takeWhile is_space t)
      in case dropWhile is_space t of
           [] \<Rightarrow> None
         | c # cs \<Rightarrow>
             if is_dash c then Some (w + 1 + length (line_rest cs))
             else if c = 91 then map_option (\<lambda>n. w + 1 + n) (bracket_len cs)
             else if c = 40 then map_option (\<lambda>n. w + 1 + n) (paren_len cs)
             else if c = 58 then map_option (\<lambda>n. w + 1 + n) (colon_len cs)
             else None)"

fun sub_annotations_from :: "nat \<Rightarrow> pystr \<Rightarrow> pystr" where
  \<comment> \<open>\<open>re.sub(pattern, '', s)\<close>; the counter is what is left of the current match\<close>
  "sub_annotations_from k [] = []"
| "sub_annotations_from k (c # cs) =
     (if 0 < k then sub_annotations_from (k - 1) cs
      else case annotation_match (c # cs) of
             Some n \<Rightarrow> sub_annotations_from (n - 1) cs
           | None \<Rightarrow> c # sub_annotations_from 0 cs)"

definition sub_annotations :: "pystr \<Rightarrow> pystr" where
  "sub_annotations s = sub_annotations_from 0 s"

definition sub_special :: "pylib \<Rightarrow> pystr \<Rightarrow> pystr" where
  \<comment> \<open>\<^verbatim>\<open>re.sub(r'[^\w\s]', '', s)\<close>\<close>
  "sub_special L s = filter (\<lambda>c. is_word L c \<or> is_space c) s"

fun sub_spaces_from :: "bool \<Rightarrow> pystr \<Rightarrow> pystr" where
  \<comment> \<open>\<^verbatim>\<open>re.sub(r'\s+', ' ', s)\<close>; the flag says that the run of white space has begun\<close>
  "sub_spaces_from b [] = []"
| "sub_spaces_from b (c # cs) =
     (if is_space c then (if b then sub_spaces_from True cs else 32 # sub_spaces_from True cs)
      else c # sub_spaces_from False cs)"

definition sub_spaces :: "pystr \<Rightarrow> pystr" where
  "sub_spaces s = sub_spaces_from False s"

definition clean_display_name :: "pylib \<Rightarrow> pystr \<Rightarrow> pystr" where
  "clean_display_name L display_name_text =
     (let cleaned = strip (replace (cp ''&gt;'') (cp ''>'') (replace (cp ''&lt;'') (cp ''<'') display_name_text));
          cleaned = strip (sub_annotations cleaned);
          cleaned = strip (sub_special L cleaned);
          cleaned = lower L (strip (sub_spaces cleaned))
      in cleaned)"

section \<open>The participant map of a session\<close>

text \<open>
  \<open>canonical_participant_map\<close> is a Python dictionary; the substring fallback iterates
  it in insertion order, so it is an association list in that order. A key is only ever
  added when it is absent, at the end.
\<close>

type_synonym pmap = "(pystr \<times> pystr) list"

definition dict_has :: "pmap \<Rightarrow> pystr \<Rightarrow> bool" where
  \<comment> \<open>\<open>key in canonical_participant_map\<close>\<close>
  "dict_has m k \<longleftrightarrow> map_of m k \<noteq> None"

definition register :: "pystr \<Rightarrow> pystr \<Rightarrow> pmap \<Rightarrow> pmap" where
  \<comment> \<open>\<open>if name and name not in canonical_participant_map: canonical_participant_map[name] = ident\<close>\<close>
  "register name ident m = (if name \<noteq> [] \<and> \<not> dict_has m name then m @ [(name, ident)] else m)"

text \<open>
  \<^verbatim>\<open>re.search(r'\(([^)]+@[^)]+\.[^)]+)\)', full_li_text)\<close>: group 1 is what stands
  between an opening parenthesis and the first closing one after it, so the search
  succeeds at the first opening parenthesis whose content has the shape
  \<open>local@domain.tld\<close> with three non-empty parts.
\<close>

fun dot_tail :: "pystr \<Rightarrow> bool" where
  "dot_tail [] = False"
| "dot_tail (c # cs) = ((c = 46 \<and> cs \<noteq> []) \<or> dot_tail cs)"

fun at_tail :: "pystr \<Rightarrow> bool" where
  "at_tail [] = False"
| "at_tail (c # cs) = ((c = 64 \<and> cs \<noteq> [] \<and> dot_tail (tl cs)) \<or> at_tail cs)"

definition email_shaped :: "pystr \<Rightarrow> bool" where
  "email_shaped g \<longleftrightarrow> g \<noteq> [] \<and> at_tail (tl g)"

fun identifier_match :: "pystr \<Rightarrow> pystr option" where
  "identifier_match [] = None"
| "identifier_match (c # cs) =
     (if c = 40 then
        (let g = takeWhile (\<lambda>x. x \<noteq> 41) cs
         in if length g < length cs \<and> email_shaped g then Some g else identifier_match cs)
      else identifier_match cs)"

definition first_token :: "pystr \<Rightarrow> pystr" where
  \<comment> \<open>\<open>name_v2.split(' ')[0] if name_v2 else ''\<close>\<close>
  "first_token name_v2 = (if name_v2 \<noteq> [] then takeWhile (\<lambda>c. c \<noteq> 32) name_v2 else [])"

definition add_participant :: "pylib \<Rightarrow> pmap \<Rightarrow> pystr \<Rightarrow> pmap" where
  \<comment> \<open>the body of the loop over the roster; \<open>full_li_text\<close> is \<open>li.get_text(strip=True)\<close>\<close>
  "add_participant L m full_li_text =
     (case identifier_match full_li_text of
        Some g \<Rightarrow>
          (let primary_identifier = lower L g;
               display_name_part = strip (replace (cp ''('' @ g @ cp '')'') [] full_li_text);
               name_v1 = lower L display_name_part;
               m = register name_v1 primary_identifier m;
               name_v2 = clean_display_name L display_name_part;
               m = register name_v2 primary_identifier m;
               name_v3 = first_token name_v2;
               m = register name_v3 primary_identifier m
           in m)
      | None \<Rightarrow>
          (let cleaned_name = clean_display_name L full_li_text
           in register cleaned_name cleaned_name m))"

definition canonical_participant_map :: "pylib \<Rightarrow> pystr list option \<Rightarrow> pmap" where
  \<comment> \<open>\<open>None\<close>: the session has no \<open>ul\<close>\<close>
  "canonical_participant_map L participants_list =
     (case participants_list of None \<Rightarrow> [] | Some lis \<Rightarrow> foldl (add_participant L) [] lis)"

section \<open>Attribution of a message\<close>

fun substring_fallback :: "pystr \<Rightarrow> pmap \<Rightarrow> pystr option" where
  \<comment> \<open>the \<open>for\<close> loop over \<open>canonical_participant_map.items()\<close>, left at the first hit\<close>
  "substring_fallback sender_name_v2 [] = None"
| "substring_fallback sender_name_v2 ((canonical_name, identifier_in_map) # rest) =
     (if sublist canonical_name sender_name_v2 \<or> sublist sender_name_v2 canonical_name
      then Some identifier_in_map
      else substring_fallback sender_name_v2 rest)"

definition identify_sender :: "pylib \<Rightarrow> pmap \<Rightarrow> pystr \<Rightarrow> pystr option" where
  "identify_sender L m sender_display_name_from_msg =
     (let sender_name_v1 = lower L sender_display_name_from_msg;
          sender_name_v2 = clean_display_name L sender_display_name_from_msg;
          sender_name_v3 = first_token sender_name_v2
      in if dict_has m sender_name_v2 then map_of m sender_name_v2
         else if dict_has m sender_name_v3 then map_of m sender_name_v3
         else if dict_has m sender_name_v1 then map_of m sender_name_v1
         else substring_fallback sender_name_v2 m)"

definition from_field :: "pylib \<Rightarrow> pystr \<Rightarrow> pystr option \<Rightarrow> pystr" where
  \<comment> \<open>\<open>None\<close> and the empty string are both false in the \<open>if\<close>\<close>
  "from_field L user_identifier identified_sender_identifier =
     (case identified_sender_identifier of
        None \<Rightarrow> cp ''human''
      | Some i \<Rightarrow> if i \<noteq> [] \<and> lower L user_identifier = lower L i then cp ''gpt'' else cp ''human'')"

definition is_noise :: "pylib \<Rightarrow> pystr \<Rightarrow> bool" where
  "is_noise L content_text \<longleftrightarrow>
     prefix (cp ''http://'') (lower L (strip content_text)) \<or>
     prefix (cp ''https://'') (lower L (strip content_text)) \<or>
     prefix (cp ''ping? [request]'') (lower L (strip content_text))"

section \<open>Rows, sessions, documents\<close>

text \<open>
  What BeautifulSoup hands to the program is the input of the model: of a row, whether
  its class list has \<open>msgplus\<close>, the text of its time marker
  (\<open>time_tag.get_text(strip=True)\<close>), the text of its sender cell once the time marker is
  cut out (\<open>get_text(strip=True)\<close>) and the text of its content cell
  (\<open>get_text(separator=' ', strip=True)\<close>), each \<open>None\<close> when the element is missing.
\<close>

record row =
  row_msgplus :: bool
  row_time :: "pystr option"
  row_sender :: "pystr option"
  row_content :: "pystr option"

record session =
  session_h2 :: "pystr option"
  session_ul :: "pystr list option"
  session_tr :: "row list"

text \<open>The local variables of one pass of the loop over the rows.\<close>

record message =
  msg_timestamp :: pystr
  msg_sender :: pystr
  msg_identifier :: "pystr option"
  msg_from :: pystr
  msg_value :: pystr

definition format_time :: "pystr \<Rightarrow> pystr" where
  "format_time t =
     (let time_str = replace (cp '')'') [] (replace (cp ''('') [] t)
      in if count_list time_str 58 = 1 then time_str @ cp '':00'' else time_str)"

definition process_row :: "pylib \<Rightarrow> pystr \<Rightarrow> pmap \<Rightarrow> pystr \<Rightarrow> row \<Rightarrow> message option" where
  \<comment> \<open>\<open>None\<close>: the row adds nothing to \<open>session_conversations\<close>\<close>
  "process_row L session_date m user_identifier r =
     (if row_msgplus r then None
      else case (row_time r, row_sender r, row_content r) of
        (Some t, Some s, Some content_text) \<Rightarrow>
          (let full_timestamp = session_date @ cp '', '' @ format_time t;
               sender_display_name_from_msg = strip (rstrip_char 58 s)
           in if is_noise L content_text then None
              else
                (let identified_sender_identifier = identify_sender L m sender_display_name_from_msg
                 in Some \<lparr>msg_timestamp = full_timestamp,
                          msg_sender = sender_display_name_from_msg,
                          msg_identifier = identified_sender_identifier,
                          msg_from = from_field L user_identifier identified_sender_identifier,
                          msg_value = content_text\<rparr>))
      | _ \<Rightarrow> None)"

subsection \<open>The date of a session\<close>

text \<open>
  \<^verbatim>\<open>re.search(r'\d{1,2} \w+ \d{4}', text)\<close>, with the backtracking of the greedy
  quantifiers written out: two digits are tried before one, and the longest run of word
  characters first.
\<close>

definition four_digits :: "pylib \<Rightarrow> pystr \<Rightarrow> bool" where
  "four_digits L s \<longleftrightarrow> 4 \<le> length s \<and> list_all (is_digit L) (take 4 s)"

fun word_run :: "pylib \<Rightarrow> pystr \<Rightarrow> pystr option" where
  \<comment> \<open>the rest of \<open>\w+ \d{4}\<close> after its first word character\<close>
  "word_run L [] = None"
| "word_run L (c # cs) =
     (case (if is_word L c then word_run L cs else None) of
        Some m \<Rightarrow> Some (c # m)
      | None \<Rightarrow> if c = 32 \<and> four_digits L cs then Some (c # take 4 cs) else None)"

definition month_year :: "pylib \<Rightarrow> pystr \<Rightarrow> pystr option" where
  \<comment> \<open>\<open> \w+ \d{4}\<close>\<close>
  "month_year L s =
     (case s of
        sp # c # cs \<Rightarrow> if sp = 32 \<and> is_word L c then map_option (\<lambda>m. sp # c # m) (word_run L cs) else None
      | _ \<Rightarrow> None)"

definition date_match :: "pylib \<Rightarrow> pystr \<Rightarrow> pystr option" where
  \<comment> \<open>the match that starts at the head of the string\<close>
  "date_match L s =
     (case s of
        [] \<Rightarrow> None
      | d1 # r \<Rightarrow>
          if is_digit L d1 then
            (case (case r of [] \<Rightarrow> None
                   | d2 # r2 \<Rightarrow> if is_digit L d2 then map_option (\<lambda>m. d1 # d2 # m) (month_year L r2) else None) of
               Some x \<Rightarrow> Some x
             | None \<Rightarrow> map_option (\<lambda>m. d1 # m) (month_year L r))
          else None)"

fun date_search :: "pylib \<Rightarrow> pystr \<Rightarrow> pystr option" where
  "date_search L [] = None"
| "date_search L (c # cs) =
     (case date_match L (c # cs) of Some x \<Rightarrow> Some x | None \<Rightarrow> date_search L cs)"

definition french_months :: "(pystr \<times> pystr) list" where
  "french_months =
     [(cp ''janvier'', cp ''January''), (cp ''f'' @ [233] @ cp ''vrier'', cp ''February''),
      (cp ''mars'', cp ''March''), (cp ''avril'', cp ''April''), (cp ''mai'', cp ''May''),
      (cp ''juin'', cp ''June''), (cp ''juillet'', cp ''July''),
      (cp ''ao'' @ [251] @ cp ''t'', cp ''August''), (cp ''septembre'', cp ''September''),
      (cp ''octobre'', cp ''October''), (cp ''novembre'', cp ''November''),
      (cp ''d'' @ [233] @ cp ''cembre'', cp ''December'')]"

definition UNKNOWN_DATE :: pystr where
  "UNKNOWN_DATE = cp ''UNKNOWN_DATE''"

definition translate_months :: "pystr \<Rightarrow> pystr" where
  \<comment> \<open>\<open>for fr, en in french_months.items(): date_part = date_part.replace(fr, en)\<close>\<close>
  "translate_months date_part = foldl (\<lambda>d (fr, en). replace fr en d) date_part french_months"

definition session_date_of :: "pylib \<Rightarrow> pystr option \<Rightarrow> pystr" where
  \<comment> \<open>the argument is \<open>session_date_tag.get_text()\<close>, \<open>None\<close> without an \<open>h2\<close>\<close>
  "session_date_of L h2 =
     (case h2 of
        None \<Rightarrow> UNKNOWN_DATE
      | Some text \<Rightarrow>
          (case date_search L text of
             None \<Rightarrow> UNKNOWN_DATE
           | Some date_part \<Rightarrow>
               (case py_strptime L (translate_months date_part) of
                  None \<Rightarrow> UNKNOWN_DATE
                | Some d \<Rightarrow> d)))"

subsection \<open>The document\<close>

definition session_messages :: "pylib \<Rightarrow> pystr \<Rightarrow> session \<Rightarrow> message list" where
  "session_messages L user_identifier s =
     List.map_filter
       (process_row L (session_date_of L (session_h2 s))
          (canonical_participant_map L (session_ul s)) user_identifier)
       (session_tr s)"

definition turn :: "message \<Rightarrow> pystr \<times> pystr" where
  \<comment> \<open>the dictionary \<open>{"from": ..., "value": ...}\<close> appended to \<open>session_conversations\<close>\<close>
  "turn x = (msg_from x, msg_value x)"

definition conversations_of :: "pylib \<Rightarrow> pystr \<Rightarrow> session list \<Rightarrow> (pystr \<times> pystr) list" where
  "conversations_of L user_identifier sessions =
     concat (map (\<lambda>s. map turn (session_messages L user_identifier s)) sessions)"

section \<open>Writing the files\<close>

fun str_nat :: "nat \<Rightarrow> pystr" where
  \<comment> \<open>\<open>str(i)\<close>\<close>
  "str_nat n = (if n < 10 then [48 + n] else str_nat (n div 10) @ [48 + n mod 10])"

declare str_nat.simps [simp del]

definition range40 :: "nat \<Rightarrow> nat list" where
  \<comment> \<open>\<open>range(0, n, 40)\<close>\<close>
  "range40 n = map (\<lambda>k. 40 * k) [0 ..< (n + 39) div 40]"

definition save_files :: "pystr \<Rightarrow> 'a list \<Rightarrow> (pystr \<times> 'a list) list" where
  \<comment> \<open>the files written, in order: name and the list under \<open>"conversations"\<close>\<close>
  "save_files json_file_path conversations =
     (if length conversations > 40 then
        concat (map (\<lambda>i. let partial_conversations = take 40 (drop i conversations)
                         in if length partial_conversations < 3 then []
                            else [(json_file_path @ str_nat i @ cp ''.json'', partial_conversations)])
                    (range40 (length conversations)))
      else if length conversations < 3 then []
      else [(json_file_path @ cp ''.json'', conversations)])"

definition html_to_json ::
  "pylib \<Rightarrow> session list option \<Rightarrow> pystr \<Rightarrow> pystr \<Rightarrow> (pystr \<times> (pystr \<times> pystr) list) list" where
  \<comment> \<open>\<open>None\<close>: the file cannot be opened or parsed, and the function returns at once\<close>
  "html_to_json L soup json_file_path user_identifier =
     (case soup of
        None \<Rightarrow> []
      | Some sessions \<Rightarrow> save_files json_file_path (conversations_of L user_identifier sessions))"

section \<open>Reference definitions\<close>

text \<open>
  The statements below compare the program with these definitions, which follow the
  words of the specification: the consecutive chunks of at most 40 messages, and the
  ordered attempts of the attribution, of which the first that succeeds wins.
\<close>

fun chunks40 :: "'a list \<Rightarrow> 'a list list" where
  "chunks40 xs = (if xs = [] then [] else take 40 xs # chunks40 (drop 40 xs))"

declare chunks40.simps [simp del]

fun first_success :: "'a option list \<Rightarrow> 'a option" where
  "first_success [] = None"
| "first_success (Some x # rest) = Some x"
| "first_success (None # rest) = first_success rest"

definition attribution_order :: "pylib \<Rightarrow> pmap \<Rightarrow> pystr \<Rightarrow> pystr option" where
  "attribution_order L m sender =
     first_success
       [map_of m (clean_display_name L sender),
        map_of m (first_token (clean_display_name L sender)),
        map_of m (lower L sender),
        map_option snd
          (find (\<lambda>(key, ident). sublist key (clean_display_name L sender) \<or>
                                sublist (clean_display_name L sender) key) m)]"

definition keys_nonempty :: "pmap \<Rightarrow> bool" where
  "keys_nonempty m \<longleftrightarrow> list_all (\<lambda>(k, v). k \<noteq> []) m"

definition values_nonempty :: "pmap \<Rightarrow> bool" where
  "values_nonempty m \<longleftrightarrow> list_all (\<lambda>(k, v). v \<noteq> []) m"

text \<open>The names under which \<open>add_participant\<close> tries to register a roster entry.\<close>

definition entry_keys :: "pylib \<Rightarrow> pystr \<Rightarrow> pystr list" where
  "entry_keys L full_li_text =
     (case identifier_match full_li_text of
        Some g \<Rightarrow>
          (let display_name_part = strip (replace (cp ''('' @ g @ cp '')'') [] full_li_text)
           in [lower L display_name_part, clean_display_name L display_name_part,
               first_token (clean_display_name L display_name_part)])
      | None \<Rightarrow> [clean_display_name L full_li_text])"

text \<open>What the loop over the rows computes for a message, apart from its timestamp.\<close>

definition untimed :: "message \<Rightarrow> pystr \<times> pystr option \<times> pystr \<times> pystr" where
  "untimed x = (msg_sender x, msg_identifier x, msg_from x, msg_value x)"

text \<open>
  The shape of a normalized ASCII name: lower-case letters, digits and underscores in
  words that single spaces separate.
\<close>

definition is_lower_word :: "nat \<Rightarrow> bool" where
  "is_lower_word c \<longleftrightarrow> (48 \<le> c \<and> c \<le> 57) \<or> (97 \<le> c \<and> c \<le> 122) \<or> c = 95"

fun single_spaced :: "pystr \<Rightarrow> bool" where
  "single_spaced (a # b # cs) \<longleftrightarrow> \<not> (is_space a \<and> is_space b) \<and> single_spaced (b # cs)"
| "single_spaced cs \<longleftrightarrow> True"

definition normal_name :: "pystr \<Rightarrow> bool" where
  "normal_name s \<longleftrightarrow>
     list_all (\<lambda>c. is_lower_word c \<or> c = 32) s \<and> single_spaced s \<and>
     (s \<noteq> [] \<longrightarrow> hd s \<noteq> 32 \<and> last s \<noteq> 32)"

text \<open>
  A library to run the model on examples. It has CPython's rows of the tables for the
  code points from 128 to 255 and for U+0130, whose lower case is \<open>i\<close> followed by the
  combining dot above, U+0307; the examples use no other code point beyond ASCII. Its
  \<open>strptime\<close> knows one date.
\<close>

definition sample_lib :: pylib where
  "sample_lib =
     \<lparr>py_isalnum = (\<lambda>c. c \<in> {170, 178, 179, 181, 185, 186, 188, 189, 190} \<or>
                          (192 \<le> c \<and> c \<le> 255 \<and> c \<noteq> 215 \<and> c \<noteq> 247) \<or> c = 304),
      py_isdecimal = (\<lambda>c. False),
      py_lower_in = (\<lambda>pre c post.
                       if 192 \<le> c \<and> c \<le> 222 \<and> c \<noteq> 215 then [c + 32]
                       else if c = 304 then [105, 775] else [c]),
      py_strptime = (\<lambda>s. if s = cp ''12 March 2004'' then Some (cp ''04.03.12'') else None)\<rparr>"

section \<open>Chunked serialization\<close>

lemma range40_step: "0 < n \<Longrightarrow> range40 n = 0 # map (\<lambda>i. i + 40) (range40 (n - 40))"
proof -
  assume n: "0 < n"
  have e: "(n + 39) div 40 = Suc ((n - 40 + 39) div 40)"
  proof (cases "40 \<le> n")
    case True
    then obtain m where "n = m + 40"
      by (metis le_add_diff_inverse2)
    then show ?thesis by simp
  next
    case False
    with n have "(n + 39) div 40 = 1"
      by (intro div_nat_eqI) simp_all
    with False show ?thesis by simp
  qed
  have u: "[0 ..< Suc k] = 0 # map Suc [0 ..< k]" for k
    by (simp only: map_Suc_upt upt_conv_Cons [OF zero_less_Suc])
  show ?thesis
    unfolding range40_def e u by (simp add: comp_def)
qed

lemma range40_0: "range40 0 = []"
  by (simp add: range40_def)

lemma slices_chunks40:
  "map (\<lambda>i. take 40 (drop i xs)) (range40 (length xs)) = chunks40 xs"
proof (induction xs rule: chunks40.induct)
  case (1 xs)
  show ?case
  proof (cases "xs = []")
    case True
    then show ?thesis by (simp add: range40_0 chunks40.simps)
  next
    case False
    then have "0 < length xs" by simp
    from range40_step [OF this] 1 [OF False] False show ?thesis
      by (subst chunks40.simps) (simp add: comp_def add.commute)
  qed
qed

lemma concat_chunks40: "concat (chunks40 xs) = xs"
  by (induction xs rule: chunks40.induct) (subst chunks40.simps, simp)

lemma chunks40_bound: "c \<in> set (chunks40 xs) \<Longrightarrow> c \<noteq> [] \<and> length c \<le> 40"
proof (induction xs rule: chunks40.induct)
  case (1 xs)
  show ?case
  proof (cases "xs = []")
    case True
    with 1(2) show ?thesis by (simp add: chunks40.simps)
  next
    case False
    from 1(2) have "c = take 40 xs \<or> c \<in> set (chunks40 (drop 40 xs))"
      by (subst (asm) chunks40.simps) (simp add: False)
    with 1(1) [OF False] False show ?thesis by auto
  qed
qed

lemma kept_files:
  "map snd (concat (map (\<lambda>i. let p = f i in if length p < 3 then [] else [(g i, p)]) is))
     = filter (\<lambda>c. 3 \<le> length c) (map f is)"
  by (induction "is") (simp_all add: Let_def)

lemma save_files_contents:
  "map snd (save_files p conv) =
     (if length conv > 40 then filter (\<lambda>c. 3 \<le> length c) (chunks40 conv)
      else if length conv < 3 then [] else [conv])"
proof -
  have "map snd (concat (map (\<lambda>i. let partial_conversations = take 40 (drop i conv)
                         in if length partial_conversations < 3 then []
                            else [(p @ str_nat i @ cp ''.json'', partial_conversations)])
                    (range40 (length conv))))
        = filter (\<lambda>c. 3 \<le> length c) (map (\<lambda>i. take 40 (drop i conv)) (range40 (length conv)))"
    by (rule kept_files)
  then show ?thesis
    unfolding save_files_def slices_chunks40 by simp
qed



lemma save_files_85:
  assumes "length conv = 85"
  shows "save_files p conv =
           [(p @ cp ''0.json'', take 40 conv), (p @ cp ''40.json'', take 40 (drop 40 conv)),
            (p @ cp ''80.json'', drop 80 conv)]"
proof -
  have r: "range40 85 = [0, 40, 80]"
    by (simp add: range40_def upt_rec)
  have s: "str_nat 0 = cp ''0''" "str_nat 40 = cp ''40''" "str_nat 80 = cp ''80''"
    by (simp_all add: str_nat.simps cp_def)
  show ?thesis
    unfolding save_files_def assms r by (simp add: s assms cp_def)
qed

lemma save_files_41:
  assumes "length conv = 41"
  shows "save_files p conv = [(p @ cp ''0.json'', take 40 conv)]"
proof -
  have r: "range40 41 = [0, 40]"
    by (simp add: range40_def upt_rec)
  have s: "str_nat 0 = cp ''0''"
    by (simp add: str_nat.simps cp_def)
  show ?thesis
    unfolding save_files_def assms r by (simp add: s assms cp_def)
qed

text \<open>
  C4. The files written hold the consecutive chunks of at most 40 of the retained
  messages, without the chunks of fewer than 3, when there are more than 40 messages;
  otherwise the whole sequence is one file, and no file when it has fewer than 3
  messages. 85 messages give three files of 40, 40 and 5 messages, named by the offsets
  0, 40 and 80; 41 messages give the one file of the first 40.
\<close>

theorem save_files_chunked:
  "(40 < length conv \<longrightarrow>
      map snd (save_files p conv) = filter (\<lambda>c. 3 \<le> length c) (chunks40 conv)) \<and>
   (length conv \<le> 40 \<longrightarrow>
      save_files p conv = (if length conv < 3 then [] else [(p @ cp ''.json'', conv)])) \<and>
   concat (chunks40 conv) = conv \<and>
   (\<forall>c \<in> set (chunks40 conv). c \<noteq> [] \<and> length c \<le> 40) \<and>
   (length conv = 85 \<longrightarrow>
      save_files p conv =
        [(p @ cp ''0.json'', take 40 conv), (p @ cp ''40.json'', take 40 (drop 40 conv)),
         (p @ cp ''80.json'', drop 80 conv)] \<and>
      map (\<lambda>f. length (snd f)) (save_files p conv) = [40, 40, 5]) \<and>
   (length conv = 41 \<longrightarrow> save_files p conv = [(p @ cp ''0.json'', take 40 conv)])"
proof (intro conjI impI ballI)
  show "map snd (save_files p conv) = filter (\<lambda>c. 3 \<le> length c) (chunks40 conv)"
    if "40 < length conv"
    using that by (simp add: save_files_contents)
  show "save_files p conv = (if length conv < 3 then [] else [(p @ cp ''.json'', conv)])"
    if "length conv \<le> 40"
    using that by (simp add: save_files_def)
  show "concat (chunks40 conv) = conv"
    by (rule concat_chunks40)
  show "c \<noteq> []" and "length c \<le> 40" if "c \<in> set (chunks40 conv)" for c
    using chunks40_bound [OF that] by simp_all
  show "save_files p conv =
        [(p @ cp ''0.json'', take 40 conv), (p @ cp ''40.json'', take 40 (drop 40 conv)),
         (p @ cp ''80.json'', drop 80 conv)]"
    if "length conv = 85"
    using that by (rule save_files_85)
  show "map (\<lambda>f. length (snd f)) (save_files p conv) = [40, 40, 5]" if "length conv = 85"
    by (simp add: save_files_85 [OF that] that)
  show "save_files p conv = [(p @ cp ''0.json'', take 40 conv)]" if "length conv = 41"
    using that by (rule save_files_41)
qed

theorem save_files_chunked_witness:
  "map (\<lambda>f. length (snd f)) (save_files (cp ''out/a'') (replicate 85 (cp ''human'', cp ''hi'')))
     = [40, 40, 5] \<and>
   save_files (cp ''out/a'') (replicate 41 (cp ''human'', cp ''hi''))
     = [(cp ''out/a'' @ cp ''0.json'', replicate 40 (cp ''human'', cp ''hi''))] \<and>
   save_files (cp ''out/a'') (replicate 2 (cp ''human'', cp ''hi'')) = [] \<and>
   save_files (cp ''out/a'') (replicate 3 (cp ''human'', cp ''hi''))
     = [(cp ''out/a'' @ cp ''.json'', replicate 3 (cp ''human'', cp ''hi''))]"
  using save_files_chunked [of "replicate 85 (cp ''human'', cp ''hi'')" "cp ''out/a''"]
    save_files_chunked [of "replicate 41 (cp ''human'', cp ''hi'')" "cp ''out/a''"]
    save_files_chunked [of "replicate 2 (cp ''human'', cp ''hi'')" "cp ''out/a''"]
    save_files_chunked [of "replicate 3 (cp ''human'', cp ''hi'')" "cp ''out/a''"]
  by simp

section \<open>The program on the examples of the specification\<close>

lemma cp_inject [simp]: "cp a = cp b \<longleftrightarrow> a = b"
proof -
  have "inj (of_char :: char \<Rightarrow> nat)"
    by (simp add: inj_def)
  then show ?thesis
    unfolding cp_def by (rule inj_map_eq_map)
qed

lemma cp_empty [simp]: "cp s = [] \<longleftrightarrow> s = []" "[] = cp s \<longleftrightarrow> s = []"
  by (auto simp add: cp_def)

lemma cp_append: "cp a @ cp b = cp (a @ b)"
  by (simp add: cp_def)

lemma jane_doe_match:
  "identifier_match (cp ''Jane Doe (jane.doe@example.com)'') = Some (cp ''jane.doe@example.com'')"
  by (simp add: email_shaped_def cp_def Let_def)

lemma jane_doe_display:
  "strip (replace (cp ''('' @ cp ''jane.doe@example.com'' @ cp '')'') []
            (cp ''Jane Doe (jane.doe@example.com)'')) = cp ''Jane Doe''"
  by (simp add: replace_def strip_def is_space_def cp_def)

lemma jane_doe_lower: "lower L (cp ''Jane Doe'') = cp ''jane doe''"
  by (simp add: lower_def ascii_lower_def cp_def)

lemma jane_doe_identifier: "lower L (cp ''jane.doe@example.com'') = cp ''jane.doe@example.com''"
  by (simp add: lower_def ascii_lower_def cp_def)

lemmas clean_defs = clean_display_name_def replace_def strip_def sub_annotations_def
  annotation_match_def is_dash_def line_rest_def paren_len_def colon_len_def sub_special_def
  sub_spaces_def lower_def ascii_lower_def is_space_def is_word_def is_alnum_def Let_def cp_def

lemma jane_doe_clean: "clean_display_name L (cp ''Jane Doe'') = cp ''jane doe''"
  by (simp add: clean_defs)

lemma jane_doe_first: "first_token (cp ''jane doe'') = cp ''jane''"
  by (simp add: first_token_def cp_def)

lemma add_jane_doe:
  "add_participant L m (cp ''Jane Doe (jane.doe@example.com)'') =
     register (cp ''jane'') (cp ''jane.doe@example.com'')
       (register (cp ''jane doe'') (cp ''jane.doe@example.com'')
          (register (cp ''jane doe'') (cp ''jane.doe@example.com'') m))"
  by (simp add: add_participant_def jane_doe_match jane_doe_display jane_doe_lower
      jane_doe_identifier jane_doe_clean jane_doe_first Let_def)

lemma jane_doe_map:
  "canonical_participant_map L (Some [cp ''Jane Doe (jane.doe@example.com)'']) =
     [(cp ''jane doe'', cp ''jane.doe@example.com''), (cp ''jane'', cp ''jane.doe@example.com'')]"
  unfolding canonical_participant_map_def
  by (simp add: add_jane_doe, simp add: register_def dict_has_def cp_def)

lemma jane_d_sender: "strip (rstrip_char 58 (cp ''Jane D. :'')) = cp ''Jane D.''"
  by (simp add: strip_def rstrip_char_def is_space_def cp_def)

lemma jane_d_clean: "clean_display_name L (cp ''Jane D.'') = cp ''jane d''"
  by (simp add: clean_defs)

lemma jane_d_first: "first_token (cp ''jane d'') = cp ''jane''"
  by (simp add: first_token_def cp_def)

lemma jane_d_lower: "lower L (cp ''Jane D.'') = cp ''jane d.''"
  by (simp add: lower_def ascii_lower_def cp_def)

lemma bob_smith_match: "identifier_match (cp ''Bob Smith'') = None"
  by (simp add: cp_def)

lemma bob_smith_clean: "clean_display_name L (cp ''Bob Smith'') = cp ''bob smith''"
  by (simp add: clean_defs)

lemma add_bob_smith:
  "add_participant L m (cp ''Bob Smith'') = register (cp ''bob smith'') (cp ''bob smith'') m"
  by (simp add: add_participant_def bob_smith_match bob_smith_clean Let_def)

lemma smiley_clean: "clean_display_name L (cp '':-)'') = []"
  by (simp add: clean_defs)

lemma smiley_lower: "lower L (cp '':-)'') = cp '':-)''"
  by (simp add: lower_def ascii_lower_def cp_def)

lemma jane_d_identified:
  "identify_sender L
     [(cp ''jane doe'', cp ''jane.doe@example.com''), (cp ''jane'', cp ''jane.doe@example.com'')]
     (cp ''Jane D.'') = Some (cp ''jane.doe@example.com'')"
  by (simp add: identify_sender_def jane_d_clean jane_d_first jane_d_lower dict_has_def)

lemma hello_not_noise: "\<not> is_noise L (cp ''hello'')"
  by (simp add: is_noise_def strip_def is_space_def lower_def ascii_lower_def cp_def)

lemma format_time_12_30: "format_time (cp ''(12:30)'') = cp ''12:30:00''"
  by (simp add: format_time_def replace_def cp_def)

lemma user_lower: "lower L (cp ''Jane.Doe@Example.com'') = cp ''jane.doe@example.com''"
  by (simp add: lower_def ascii_lower_def cp_def)

lemma jane_d_row:
  "process_row L d
     [(cp ''jane doe'', cp ''jane.doe@example.com''), (cp ''jane'', cp ''jane.doe@example.com'')]
     (cp ''Jane.Doe@Example.com'')
     \<lparr>row_msgplus = False, row_time = Some (cp ''(12:30)''),
      row_sender = Some (cp ''Jane D. :''), row_content = Some (cp ''hello'')\<rparr>
   = Some \<lparr>msg_timestamp = d @ cp '', '' @ cp ''12:30:00'', msg_sender = cp ''Jane D.'',
            msg_identifier = Some (cp ''jane.doe@example.com''), msg_from = cp ''gpt'',
            msg_value = cp ''hello''\<rparr>"
  by (simp add: process_row_def jane_d_sender hello_not_noise format_time_12_30 jane_d_identified
      from_field_def user_lower jane_doe_identifier)

lemma bad_date_search:
  "date_search L (cp ''Session du 32 mars 2004'') = Some (cp ''32 mars 2004'')"
  by (simp add: date_match_def month_year_def four_digits_def is_digit_def is_word_def
      is_alnum_def cp_def)

lemma bad_date_translated: "translate_months (cp ''32 mars 2004'') = cp ''32 March 2004''"
  by (simp add: translate_months_def french_months_def replace_def cp_def)

lemma jane_smith_match:
  "identifier_match (cp ''Jane Smith (jane.smith@example.com)'')
     = Some (cp ''jane.smith@example.com'')"
  by (simp add: email_shaped_def cp_def Let_def)

lemma jane_smith_display:
  "strip (replace (cp ''('' @ cp ''jane.smith@example.com'' @ cp '')'') []
            (cp ''Jane Smith (jane.smith@example.com)'')) = cp ''Jane Smith''"
  by (simp add: replace_def strip_def is_space_def cp_def)

lemma jane_smith_lower: "lower L (cp ''Jane Smith'') = cp ''jane smith''"
  by (simp add: lower_def ascii_lower_def cp_def)

lemma jane_smith_identifier:
  "lower L (cp ''jane.smith@example.com'') = cp ''jane.smith@example.com''"
  by (simp add: lower_def ascii_lower_def cp_def)

lemma jane_smith_clean: "clean_display_name L (cp ''Jane Smith'') = cp ''jane smith''"
  by (simp add: clean_defs)

lemma jane_smith_first: "first_token (cp ''jane smith'') = cp ''jane''"
  by (simp add: first_token_def cp_def)

lemma add_jane_smith:
  "add_participant L m (cp ''Jane Smith (jane.smith@example.com)'') =
     register (cp ''jane'') (cp ''jane.smith@example.com'')
       (register (cp ''jane smith'') (cp ''jane.smith@example.com'')
          (register (cp ''jane smith'') (cp ''jane.smith@example.com'') m))"
  by (simp add: add_participant_def jane_smith_match jane_smith_display jane_smith_lower
      jane_smith_identifier jane_smith_clean jane_smith_first Let_def)

lemma two_janes_map:
  "canonical_participant_map L
     (Some [cp ''Jane Smith (jane.smith@example.com)'', cp ''Jane Doe (jane.doe@example.com)'']) =
     [(cp ''jane smith'', cp ''jane.smith@example.com''),
      (cp ''jane'', cp ''jane.smith@example.com''),
      (cp ''jane doe'', cp ''jane.doe@example.com'')]"
  unfolding canonical_participant_map_def
  by (simp add: add_jane_doe add_jane_smith, simp add: register_def dict_has_def)

section \<open>The e-mail pattern\<close>

text \<open>
  The shape that \<open>email_shaped\<close> decides is the language of
  \<^verbatim>\<open>[^)]+@[^)]+\.[^)]+\<close> among the strings without a closing parenthesis: a
  non-empty part, an at sign, a non-empty part, a dot and a non-empty part.
\<close>

lemma dot_tail_iff: "dot_tail s \<longleftrightarrow> (\<exists>b c. c \<noteq> [] \<and> s = b @ 46 # c)"
proof (induction s)
  case Nil
  show ?case by simp
next
  case (Cons x s)
  show ?case
  proof
    assume "dot_tail (x # s)"
    then consider "x = 46" and "s \<noteq> []" | "dot_tail s" by auto
    then show "\<exists>b c. c \<noteq> [] \<and> x # s = b @ 46 # c"
    proof cases
      case 1
      then have "s \<noteq> [] \<and> x # s = [] @ 46 # s" by simp
      then show ?thesis by blast
    next
      case 2
      with Cons obtain b c where "c \<noteq> []" and "s = b @ 46 # c" by blast
      then have "c \<noteq> [] \<and> x # s = (x # b) @ 46 # c" by simp
      then show ?thesis by blast
    qed
  next
    assume "\<exists>b c. c \<noteq> [] \<and> x # s = b @ 46 # c"
    then obtain b c where c: "c \<noteq> []" and e: "x # s = b @ 46 # c" by blast
    show "dot_tail (x # s)"
    proof (cases b)
      case Nil
      with c e show ?thesis by simp
    next
      case (Cons y b')
      with e have "s = b' @ 46 # c" by simp
      with c Cons.IH have "dot_tail s" by blast
      then show ?thesis by simp
    qed
  qed
qed

lemma at_tail_iff:
  "at_tail s \<longleftrightarrow> (\<exists>a b c. b \<noteq> [] \<and> c \<noteq> [] \<and> s = a @ 64 # b @ 46 # c)"
proof (induction s)
  case Nil
  show ?case by simp
next
  case (Cons x s)
  show ?case
  proof
    assume "at_tail (x # s)"
    then consider "x = 64" and "s \<noteq> []" and "dot_tail (tl s)" | "at_tail s" by auto
    then show "\<exists>a b c. b \<noteq> [] \<and> c \<noteq> [] \<and> x # s = a @ 64 # b @ 46 # c"
    proof cases
      case 1
      from 1(3) obtain b c where "c \<noteq> []" and "tl s = b @ 46 # c"
        unfolding dot_tail_iff by blast
      with 1(1,2) have "hd s # b \<noteq> [] \<and> c \<noteq> [] \<and> x # s = [] @ 64 # (hd s # b) @ 46 # c"
        by (cases s) simp_all
      then show ?thesis by blast
    next
      case 2
      with Cons obtain a b c where "b \<noteq> []" and "c \<noteq> []" and "s = a @ 64 # b @ 46 # c"
        by blast
      then have "b \<noteq> [] \<and> c \<noteq> [] \<and> x # s = (x # a) @ 64 # b @ 46 # c" by simp
      then show ?thesis by blast
    qed
  next
    assume "\<exists>a b c. b \<noteq> [] \<and> c \<noteq> [] \<and> x # s = a @ 64 # b @ 46 # c"
    then obtain a b c where b: "b \<noteq> []" and c: "c \<noteq> []"
      and e: "x # s = a @ 64 # b @ 46 # c" by blast
    show "at_tail (x # s)"
    proof (cases a)
      case Nil
      with e have x: "x = 64" and s: "s = b @ 46 # c" by simp_all
      from b s have "tl s = tl b @ 46 # c" by (cases b) simp_all
      with c have "dot_tail (tl s)"
        unfolding dot_tail_iff by blast
      with x s b show ?thesis by simp
    next
      case (Cons y a')
      with e have "s = a' @ 64 # b @ 46 # c" by simp
      with b c Cons.IH have "at_tail s" by blast
      then show ?thesis by simp
    qed
  qed
qed

lemma email_shaped_iff:
  "email_shaped g \<longleftrightarrow>
     (\<exists>a b c. a \<noteq> [] \<and> b \<noteq> [] \<and> c \<noteq> [] \<and> g = a @ 64 # b @ 46 # c)"
proof
  assume "email_shaped g"
  then have "g \<noteq> []" and "at_tail (tl g)"
    by (simp_all add: email_shaped_def)
  then obtain a b c where "b \<noteq> []" and "c \<noteq> []" and "tl g = a @ 64 # b @ 46 # c"
    unfolding at_tail_iff by blast
  with \<open>g \<noteq> []\<close> have "hd g # a \<noteq> [] \<and> b \<noteq> [] \<and> c \<noteq> [] \<and> g = (hd g # a) @ 64 # b @ 46 # c"
    by (cases g) simp_all
  then show "\<exists>a b c. a \<noteq> [] \<and> b \<noteq> [] \<and> c \<noteq> [] \<and> g = a @ 64 # b @ 46 # c"
    by blast
next
  assume "\<exists>a b c. a \<noteq> [] \<and> b \<noteq> [] \<and> c \<noteq> [] \<and> g = a @ 64 # b @ 46 # c"
  then obtain a b c where a: "a \<noteq> []" and b: "b \<noteq> []" and c: "c \<noteq> []"
    and g: "g = a @ 64 # b @ 46 # c" by blast
  from a g have "tl g = tl a @ 64 # b @ 46 # c" by (cases a) simp_all
  with b c have "at_tail (tl g)"
    unfolding at_tail_iff by blast
  with a g show "email_shaped g"
    by (simp add: email_shaped_def)
qed

text \<open>
  The search fails exactly when no opening parenthesis of the text is followed, up to
  the next closing parenthesis, by a content of that shape.
\<close>

lemma takeWhile_until: "x \<notin> set g \<Longrightarrow> takeWhile (\<lambda>c. c \<noteq> x) (g @ x # q) = g"
  by (induction g) auto

lemma identifier_match_None_iff:
  "identifier_match s = None \<longleftrightarrow>
     \<not> (\<exists>p g q. s = p @ 40 # g @ 41 # q \<and> 41 \<notin> set g \<and> email_shaped g)"
proof (induction s)
  case Nil
  show ?case by simp
next
  case (Cons x s)
  let ?g = "takeWhile (\<lambda>c. c \<noteq> 41) s"
  have here: "(length ?g < length s \<and> email_shaped ?g) \<longleftrightarrow>
              (\<exists>g q. s = g @ 41 # q \<and> 41 \<notin> set g \<and> email_shaped g)"
  proof
    assume h: "length ?g < length s \<and> email_shaped ?g"
    have "dropWhile (\<lambda>c. c \<noteq> 41) s \<noteq> []"
    proof
      assume "dropWhile (\<lambda>c. c \<noteq> 41) s = []"
      with takeWhile_dropWhile_id [of "\<lambda>c. c \<noteq> 41" s] have "?g = s" by simp
      with h show False by simp
    qed
    then obtain y q where d: "dropWhile (\<lambda>c. c \<noteq> 41) s = y # q"
      by (cases "dropWhile (\<lambda>c. c \<noteq> 41) s") auto
    then have "y = 41"
      using hd_dropWhile [of "\<lambda>c. c \<noteq> 41" s] by auto
    with d have "s = ?g @ 41 # q"
      by (metis takeWhile_dropWhile_id)
    moreover have "41 \<notin> set ?g"
      by (auto dest: set_takeWhileD)
    ultimately show "\<exists>g q. s = g @ 41 # q \<and> 41 \<notin> set g \<and> email_shaped g"
      using h by blast
  next
    assume "\<exists>g q. s = g @ 41 # q \<and> 41 \<notin> set g \<and> email_shaped g"
    then obtain g q where s: "s = g @ 41 # q" and n: "41 \<notin> set g" and e: "email_shaped g"
      by blast
    from n have "?g = g"
      unfolding s by (rule takeWhile_until)
    with s e show "length ?g < length s \<and> email_shaped ?g"
      by simp
  qed
  show ?case
  proof (cases "x = 40 \<and> length ?g < length s \<and> email_shaped ?g")
    case True
    with here obtain g q where "s = g @ 41 # q" and "41 \<notin> set g" and "email_shaped g"
      by blast
    with True have "x # s = [] @ 40 # g @ 41 # q \<and> 41 \<notin> set g \<and> email_shaped g"
      by simp
    then have "\<exists>p g q. x # s = p @ 40 # g @ 41 # q \<and> 41 \<notin> set g \<and> email_shaped g"
      by blast
    with True show ?thesis by (simp add: Let_def)
  next
    case False
    then have m: "identifier_match (x # s) = identifier_match s"
      by (auto simp add: Let_def)
    have "(\<exists>p g q. x # s = p @ 40 # g @ 41 # q \<and> 41 \<notin> set g \<and> email_shaped g) \<longleftrightarrow>
          (\<exists>p g q. s = p @ 40 # g @ 41 # q \<and> 41 \<notin> set g \<and> email_shaped g)"
    proof
      assume "\<exists>p g q. x # s = p @ 40 # g @ 41 # q \<and> 41 \<notin> set g \<and> email_shaped g"
      then obtain p g q where e: "x # s = p @ 40 # g @ 41 # q" and g: "41 \<notin> set g" "email_shaped g"
        by blast
      show "\<exists>p g q. s = p @ 40 # g @ 41 # q \<and> 41 \<notin> set g \<and> email_shaped g"
      proof (cases p)
        case Nil
        with e have "x = 40" and "s = g @ 41 # q" by simp_all
        with g here False show ?thesis by blast
      next
        case (Cons y p')
        with e have "s = p' @ 40 # g @ 41 # q" by simp
        with g show ?thesis by blast
      qed
    next
      assume "\<exists>p g q. s = p @ 40 # g @ 41 # q \<and> 41 \<notin> set g \<and> email_shaped g"
      then obtain p g q where "s = p @ 40 # g @ 41 # q" and g: "41 \<notin> set g" "email_shaped g"
        by blast
      then have "x # s = (x # p) @ 40 # g @ 41 # q" by simp
      with g show "\<exists>p g q. x # s = p @ 40 # g @ 41 # q \<and> 41 \<notin> set g \<and> email_shaped g"
        by blast
    qed
    with m Cons.IH show ?thesis by simp
  qed
qed

section \<open>The participant map: first registration wins\<close>

lemma map_of_register_keep: "map_of m k = Some v \<Longrightarrow> map_of (register name ident m) k = Some v"
  by (simp add: register_def)

lemma map_of_add_participant_keep:
  "map_of m k = Some v \<Longrightarrow> map_of (add_participant L m e) k = Some v"
  by (simp add: add_participant_def Let_def map_of_register_keep split: option.split)

lemma map_of_foldl_keep:
  "map_of m k = Some v \<Longrightarrow> map_of (foldl (add_participant L) m lis) k = Some v"
  by (induction lis arbitrary: m) (simp_all add: map_of_add_participant_keep)

lemma prefix_register_trans: "prefix m m' \<Longrightarrow> prefix m (register name ident m')"
  by (simp add: register_def)

lemma prefix_add_participant: "prefix m (add_participant L m e)"
  by (simp add: add_participant_def Let_def prefix_register_trans split: option.split)

lemma prefix_foldl: "prefix m (foldl (add_participant L) m lis)"
proof (induction lis arbitrary: m)
  case Nil
  show ?case by simp
next
  case (Cons e lis)
  have "prefix m (add_participant L m e)" by (rule prefix_add_participant)
  also have "prefix (add_participant L m e) (foldl (add_participant L) (add_participant L m e) lis)"
    by (rule Cons.IH)
  finally show ?case by simp
qed

text \<open>
  C3. A key that is in the participant map with an identifier keeps that identifier
  whatever is registered afterwards: by one registration under any name, by a roster
  entry, by all the roster entries that follow in the session. The map only grows at its
  end, so the order of insertion is kept too.
\<close>

theorem first_registration_wins:
  assumes "map_of m k = Some v"
  shows "map_of (register name ident m) k = Some v \<and>
         map_of (add_participant L m full_li_text) k = Some v \<and>
         map_of (foldl (add_participant L) m lis) k = Some v \<and>
         prefix m (foldl (add_participant L) m lis)"
  using assms
  by (simp add: map_of_register_keep map_of_add_participant_keep map_of_foldl_keep prefix_foldl)

theorem first_registration_wins_witness:
  "map_of [(cp ''jane doe'', cp ''jane.doe@example.com''), (cp ''jane'', cp ''jane.doe@example.com'')]
     (cp ''jane'') = Some (cp ''jane.doe@example.com'') \<and>
   map_of (add_participant sample_lib
             [(cp ''jane doe'', cp ''jane.doe@example.com''), (cp ''jane'', cp ''jane.doe@example.com'')]
             (cp ''Jane Smith (jane.smith@example.com)''))
     (cp ''jane'') = Some (cp ''jane.doe@example.com'')"
proof -
  have h: "map_of [(cp ''jane doe'', cp ''jane.doe@example.com''),
                   (cp ''jane'', cp ''jane.doe@example.com'')] (cp ''jane'')
             = Some (cp ''jane.doe@example.com'')"
    by (simp add: cp_def)
  from first_registration_wins [OF h] h show ?thesis by simp
qed

text \<open>
  C10. A roster entry without a parenthesized e-mail address (no opening parenthesis of
  it is followed, up to the next closing parenthesis, by a text of the shape
  \<open>local@domain.tld\<close>) adds at most one key, the cleaned text of the whole entry with
  itself as identifier, and only when that text is not empty and not yet a key; every
  other key of the map is as it was, so neither the lower-cased entry nor its first word
  is registered.
\<close>

theorem entry_without_email_one_key:
  assumes "\<not> (\<exists>p g q. full_li_text = p @ 40 # g @ 41 # q \<and> 41 \<notin> set g \<and> email_shaped g)"
  shows "add_participant L m full_li_text =
           (if clean_display_name L full_li_text \<noteq> [] \<and>
               \<not> dict_has m (clean_display_name L full_li_text)
            then m @ [(clean_display_name L full_li_text, clean_display_name L full_li_text)]
            else m) \<and>
         (\<forall>k. k \<noteq> clean_display_name L full_li_text \<longrightarrow>
               map_of (add_participant L m full_li_text) k = map_of m k)"
proof -
  from assms have "identifier_match full_li_text = None"
    by (simp add: identifier_match_None_iff)
  then show ?thesis
    by (simp add: add_participant_def register_def Let_def map_add_def split: option.split)
qed

theorem entry_without_email_one_key_witness:
  "identifier_match (cp ''Bob Smith'') = None \<and>
   add_participant sample_lib [] (cp ''Bob Smith'') = [(cp ''bob smith'', cp ''bob smith'')] \<and>
   map_of (add_participant sample_lib [] (cp ''Bob Smith'')) (cp ''bob'') = None"
proof -
  have h: "\<not> (\<exists>p g q. cp ''Bob Smith'' = p @ 40 # g @ 41 # q \<and> 41 \<notin> set g \<and> email_shaped g)"
    using bob_smith_match by (simp add: identifier_match_None_iff)
  from entry_without_email_one_key [OF h, of sample_lib "[]"] show ?thesis
    by (simp add: bob_smith_match bob_smith_clean dict_has_def)
qed

section \<open>Attribution\<close>

lemma substring_fallback_find:
  "substring_fallback v2 m =
     map_option snd (find (\<lambda>(key, ident). sublist key v2 \<or> sublist v2 key) m)"
  by (induction v2 m rule: substring_fallback.induct) simp_all

lemma first_success_single: "first_success [x] = x"
  by (cases x) simp_all

text \<open>
  C1. The identifier of a sender is the first success among, in this order: the lookup
  of the heavily normalized sender text, the lookup of its first token, the lookup of the
  lower-cased sender text, and the identifier of the first entry of the map, in insertion
  order, whose key is a substring of the heavily normalized sender text or has it as a
  substring. This holds for every participant map, empty or not.
\<close>

theorem identify_sender_order: "identify_sender L m sender = attribution_order L m sender"
  unfolding identify_sender_def attribution_order_def Let_def dict_has_def substring_fallback_find
  by (cases "map_of m (clean_display_name L sender)";
      cases "map_of m (first_token (clean_display_name L sender))";
      cases "map_of m (lower L sender)") (simp_all add: first_success_single)

theorem identify_sender_order_witness:
  "identify_sender sample_lib
     [(cp ''jane doe'', cp ''jane.doe@example.com''), (cp ''jane'', cp ''jane.doe@example.com'')]
     (cp ''Jane D.'')
   = first_success [None, Some (cp ''jane.doe@example.com''), None, Some (cp ''jane.doe@example.com'')]"
  using identify_sender_order [of sample_lib
      "[(cp ''jane doe'', cp ''jane.doe@example.com''), (cp ''jane'', cp ''jane.doe@example.com'')]"
      "cp ''Jane D.''"]
  by (simp add: attribution_order_def jane_d_clean jane_d_first jane_d_lower)

lemma keys_nonempty_register: "keys_nonempty m \<Longrightarrow> keys_nonempty (register name ident m)"
  by (simp add: register_def keys_nonempty_def)

lemma keys_nonempty_add: "keys_nonempty m \<Longrightarrow> keys_nonempty (add_participant L m e)"
  by (simp add: add_participant_def Let_def keys_nonempty_register split: option.split)

lemma keys_nonempty_foldl: "keys_nonempty m \<Longrightarrow> keys_nonempty (foldl (add_participant L) m lis)"
  by (induction lis arbitrary: m) (simp_all add: keys_nonempty_add)

lemma keys_nonempty_map: "keys_nonempty (canonical_participant_map L ul)"
proof (cases ul)
  case None
  then show ?thesis by (simp add: canonical_participant_map_def keys_nonempty_def)
next
  case (Some lis)
  have "keys_nonempty []" by (simp add: keys_nonempty_def)
  then have "keys_nonempty (foldl (add_participant L) [] lis)" by (rule keys_nonempty_foldl)
  with Some show ?thesis by (simp add: canonical_participant_map_def)
qed

lemma keys_nonempty_lookup: "keys_nonempty m \<Longrightarrow> map_of m [] = None"
  by (induction m) (auto simp add: keys_nonempty_def)

text \<open>
  C9. When the heavily normalized sender text is empty, the lower-cased sender text is
  no key of the session's participant map and that map is not empty, the substring
  fallback answers with the identifier of the entry inserted first: the three lookups
  fail, no key being empty, and the empty text is a substring of the first key.
\<close>

theorem empty_sender_first_entry:
  assumes "canonical_participant_map L ul \<noteq> []"
    and "clean_display_name L sender = []"
    and "\<not> dict_has (canonical_participant_map L ul) (lower L sender)"
  shows "identify_sender L (canonical_participant_map L ul) sender
           = Some (snd (hd (canonical_participant_map L ul)))"
proof -
  have "map_of (canonical_participant_map L ul) [] = None"
    using keys_nonempty_map keys_nonempty_lookup by simp
  moreover obtain k v rest where "canonical_participant_map L ul = (k, v) # rest"
    using assms(1) by (cases "canonical_participant_map L ul") auto
  ultimately show ?thesis
    using assms(2,3) by (simp add: identify_sender_def dict_has_def first_token_def)
qed

theorem empty_sender_first_entry_witness:
  "canonical_participant_map sample_lib (Some [cp ''Jane Doe (jane.doe@example.com)'']) \<noteq> [] \<and>
   clean_display_name sample_lib (cp '':-)'') = [] \<and>
   \<not> dict_has (canonical_participant_map sample_lib (Some [cp ''Jane Doe (jane.doe@example.com)'']))
        (lower sample_lib (cp '':-)'')) \<and>
   identify_sender sample_lib
     (canonical_participant_map sample_lib (Some [cp ''Jane Doe (jane.doe@example.com)'']))
     (cp '':-)'') = Some (cp ''jane.doe@example.com'')"
proof -
  have a: "canonical_participant_map sample_lib (Some [cp ''Jane Doe (jane.doe@example.com)'']) \<noteq> []"
    by (simp add: jane_doe_map)
  have b: "clean_display_name sample_lib (cp '':-)'') = []"
    by (rule smiley_clean)
  have c: "\<not> dict_has (canonical_participant_map sample_lib (Some [cp ''Jane Doe (jane.doe@example.com)'']))
        (lower sample_lib (cp '':-)''))"
    by (simp add: jane_doe_map smiley_lower dict_has_def)
  from empty_sender_first_entry [OF a b c] a b c show ?thesis
    by (simp add: jane_doe_map)
qed

section \<open>The label of a message\<close>

lemma at_tail_has_at: "at_tail s \<Longrightarrow> 64 \<in> set s"
  by (induction s) auto

lemma email_shaped_has_at: "email_shaped g \<Longrightarrow> 64 \<in> set g"
  by (cases g) (auto simp add: email_shaped_def dest: at_tail_has_at)

lemma identifier_match_shaped: "identifier_match s = Some g \<Longrightarrow> email_shaped g"
  by (induction s) (auto simp add: Let_def split: if_splits)

lemma lower_from_ascii_member:
  "c \<in> set s \<Longrightarrow> c < 128 \<Longrightarrow> ascii_lower c \<in> set (lower_from L pre s)"
  by (induction s arbitrary: pre) auto

lemma lower_email_nonempty: "email_shaped g \<Longrightarrow> lower L g \<noteq> []"
proof -
  assume "email_shaped g"
  then have "64 \<in> set g" by (rule email_shaped_has_at)
  then have "ascii_lower 64 \<in> set (lower_from L [] g)"
    by (rule lower_from_ascii_member) simp
  then show ?thesis by (auto simp add: lower_def)
qed

lemma values_nonempty_register:
  "values_nonempty m \<Longrightarrow> (name \<noteq> [] \<Longrightarrow> ident \<noteq> []) \<Longrightarrow> values_nonempty (register name ident m)"
  by (auto simp add: register_def values_nonempty_def)

lemma values_nonempty_add:
  assumes "values_nonempty m"
  shows "values_nonempty (add_participant L m e)"
proof (cases "identifier_match e")
  case None
  with assms show ?thesis
    by (simp add: add_participant_def Let_def values_nonempty_register)
next
  case (Some g)
  then have "lower L g \<noteq> []"
    by (intro lower_email_nonempty identifier_match_shaped)
  with assms Some show ?thesis
    by (simp add: add_participant_def Let_def values_nonempty_register)
qed

lemma values_nonempty_foldl:
  "values_nonempty m \<Longrightarrow> values_nonempty (foldl (add_participant L) m lis)"
  by (induction lis arbitrary: m) (simp_all add: values_nonempty_add)

lemma values_nonempty_map: "values_nonempty (canonical_participant_map L ul)"
proof (cases ul)
  case None
  then show ?thesis by (simp add: canonical_participant_map_def values_nonempty_def)
next
  case (Some lis)
  have "values_nonempty []" by (simp add: values_nonempty_def)
  then have "values_nonempty (foldl (add_participant L) [] lis)" by (rule values_nonempty_foldl)
  with Some show ?thesis by (simp add: canonical_participant_map_def)
qed

lemma values_nonempty_lookup: "values_nonempty m \<Longrightarrow> map_of m k = Some v \<Longrightarrow> v \<noteq> []"
  by (induction m) (auto simp add: values_nonempty_def split: if_splits)

lemma values_nonempty_fallback:
  "values_nonempty m \<Longrightarrow> substring_fallback v2 m = Some v \<Longrightarrow> v \<noteq> []"
  by (induction v2 m rule: substring_fallback.induct)
     (auto simp add: values_nonempty_def split: if_splits)

lemma identify_sender_nonempty:
  "values_nonempty m \<Longrightarrow> identify_sender L m sender = Some v \<Longrightarrow> v \<noteq> []"
  unfolding identify_sender_def Let_def
  by (auto split: if_splits dest: values_nonempty_lookup values_nonempty_fallback)

lemma process_row_fields:
  assumes "process_row L d m u r = Some x"
  shows "msg_identifier x = identify_sender L m (msg_sender x)"
    and "msg_from x = from_field L u (msg_identifier x)"
    and "\<not> is_noise L (msg_value x)"
    and "row_content r = Some (msg_value x)"
    and "\<exists>s. row_sender r = Some s \<and> msg_sender x = strip (rstrip_char 58 s)"
    and "prefix d (msg_timestamp x)"
  using assms
  by (auto simp add: process_row_def Let_def split: if_splits option.splits)

lemma gpt_not_human: "cp ''gpt'' \<noteq> cp ''human''"
  by simp

text \<open>
  C2. A message that is kept is labelled \<open>gpt\<close> exactly when an identifier was found for
  its sender and that identifier and the user's identifier are equal once both are
  lower-cased; otherwise, also when no identifier was found, it is labelled \<open>human\<close>.
  The participant map is the one the program builds from a roster: its identifiers are
  never empty, so the truth test of the identifier only tells whether one was found.
\<close>

theorem label_is_gpt_iff:
  assumes "process_row L d (canonical_participant_map L ul) user_identifier r = Some x"
  shows "(msg_from x = cp ''gpt'' \<longleftrightarrow>
            (\<exists>i. msg_identifier x = Some i \<and> lower L user_identifier = lower L i)) \<and>
         (msg_from x \<noteq> cp ''gpt'' \<longrightarrow> msg_from x = cp ''human'')"
proof (cases "msg_identifier x")
  case None
  with process_row_fields(2) [OF assms] show ?thesis
    by (simp add: from_field_def)
next
  case (Some i)
  with process_row_fields(1) [OF assms] have "i \<noteq> []"
    using identify_sender_nonempty [OF values_nonempty_map] by metis
  with Some process_row_fields(2) [OF assms] show ?thesis
    by (simp add: from_field_def)
qed

theorem label_is_gpt_iff_witness:
  "process_row sample_lib (cp ''04.03.12'')
     (canonical_participant_map sample_lib (Some [cp ''Jane Doe (jane.doe@example.com)'']))
     (cp ''Jane.Doe@Example.com'')
     \<lparr>row_msgplus = False, row_time = Some (cp ''(12:30)''),
      row_sender = Some (cp ''Jane D. :''), row_content = Some (cp ''hello'')\<rparr>
   = Some \<lparr>msg_timestamp = cp ''04.03.12'' @ cp '', '' @ cp ''12:30:00'', msg_sender = cp ''Jane D.'',
            msg_identifier = Some (cp ''jane.doe@example.com''), msg_from = cp ''gpt'',
            msg_value = cp ''hello''\<rparr> \<and>
   (\<exists>i. Some (cp ''jane.doe@example.com'') = Some i \<and>
        lower sample_lib (cp ''Jane.Doe@Example.com'') = lower sample_lib i)"
proof -
  have h: "process_row sample_lib (cp ''04.03.12'')
     (canonical_participant_map sample_lib (Some [cp ''Jane Doe (jane.doe@example.com)'']))
     (cp ''Jane.Doe@Example.com'')
     \<lparr>row_msgplus = False, row_time = Some (cp ''(12:30)''),
      row_sender = Some (cp ''Jane D. :''), row_content = Some (cp ''hello'')\<rparr>
   = Some \<lparr>msg_timestamp = cp ''04.03.12'' @ cp '', '' @ cp ''12:30:00'', msg_sender = cp ''Jane D.'',
            msg_identifier = Some (cp ''jane.doe@example.com''), msg_from = cp ''gpt'',
            msg_value = cp ''hello''\<rparr>"
    unfolding jane_doe_map by (rule jane_d_row)
  from label_is_gpt_iff [OF h] h show ?thesis by simp
qed

section \<open>The noise filter\<close>

lemma save_files_subset:
  assumes "f \<in> set (save_files p conv)"
  shows "set (snd f) \<subseteq> set conv"
proof (cases "40 < length conv")
  case True
  with assms obtain i where "snd f = take 40 (drop i conv)"
    by (auto simp add: save_files_def Let_def split: if_splits)
  then show ?thesis
    by (metis set_take_subset set_drop_subset subset_trans)
next
  case False
  with assms show ?thesis
    by (auto simp add: save_files_def split: if_splits)
qed

lemma in_map_filter:
  "y \<in> set (List.map_filter g xs) \<Longrightarrow> \<exists>x \<in> set xs. g x = Some y"
  by (induction xs) (auto split: option.splits)

lemma turn_in_conversations:
  assumes "t \<in> set (conversations_of L u sessions)"
  shows "\<exists>(s::session) r x. process_row L (session_date_of L (session_h2 s))
                   (canonical_participant_map L (session_ul s)) u r = Some x \<and> t = turn x"
proof -
  from assms obtain s x where "x \<in> set (session_messages L u s)" and "t = turn x"
    by (auto simp add: conversations_of_def)
  moreover from this(1) obtain r where
    "process_row L (session_date_of L (session_h2 s))
       (canonical_participant_map L (session_ul s)) u r = Some x"
    unfolding session_messages_def by (blast dest: in_map_filter)
  ultimately show ?thesis by blast
qed

lemma output_not_noise:
  assumes "f \<in> set (html_to_json L soup p u)" and "t \<in> set (snd f)"
  shows "\<not> is_noise L (snd t)"
proof -
  from assms obtain sessions where "soup = Some sessions"
    and "f \<in> set (save_files p (conversations_of L u sessions))"
    by (cases soup) (auto simp add: html_to_json_def)
  with assms(2) have "t \<in> set (conversations_of L u sessions)"
    using save_files_subset by blast
  then obtain d m r x where "process_row L d m u r = Some x" and "t = turn x"
    using turn_in_conversations by blast
  then show ?thesis
    using process_row_fields(3) by (simp add: turn_def)
qed

lemma example_link_noise:
  "lower L (strip content_text) = cp ''https://example.com'' \<Longrightarrow> is_noise L content_text"
  by (simp add: is_noise_def cp_def)

text \<open>
  C6. A row whose content, trimmed and lower-cased, begins with \<open>http://\<close>,
  \<open>https://\<close> or \<open>ping? [request]\<close> (as the text \<open>https://example.com\<close> does) yields no
  message: the row is left before the sender is looked up. No file written for any
  document holds a message with that content.
\<close>

theorem noise_is_discarded:
  assumes "row_content r = Some content_text"
    and "prefix (cp ''http://'') (lower L (strip content_text)) \<or>
         prefix (cp ''https://'') (lower L (strip content_text)) \<or>
         prefix (cp ''ping? [request]'') (lower L (strip content_text)) \<or>
         lower L (strip content_text) = cp ''https://example.com''"
  shows "process_row L d m user_identifier r = None \<and>
         (\<forall>f \<in> set (html_to_json L soup json_file_path user_identifier).
            \<forall>t \<in> set (snd f). snd t \<noteq> content_text)"
proof -
  have n: "is_noise L content_text"
    using assms(2) example_link_noise by (auto simp add: is_noise_def)
  have "process_row L d m user_identifier r = None"
    using assms(1) n by (simp add: process_row_def Let_def split: option.split)
  moreover have "snd t \<noteq> content_text"
    if "f \<in> set (html_to_json L soup json_file_path user_identifier)" and "t \<in> set (snd f)" for f t
    using output_not_noise [OF that] n by auto
  ultimately show ?thesis by blast
qed

theorem noise_is_discarded_witness:
  "lower sample_lib (strip (cp '' HTTPS://Example.com '')) = cp ''https://example.com'' \<and>
   process_row sample_lib (cp ''04.03.12'') [] (cp ''me@example.com'')
     \<lparr>row_msgplus = False, row_time = Some (cp ''(12:30)''),
      row_sender = Some (cp ''Jane D. :''), row_content = Some (cp '' HTTPS://Example.com '')\<rparr>
   = None \<and>
   cp '' HTTPS://Example.com '' \<notin>
     (\<Union>f \<in> set (html_to_json sample_lib
        (Some [\<lparr>session_h2 = None, session_ul = None,
                session_tr = replicate 3
                  \<lparr>row_msgplus = False, row_time = Some (cp ''(12:30)''),
                   row_sender = Some (cp ''Jane D. :''),
                   row_content = Some (cp '' HTTPS://Example.com '')\<rparr>\<rparr>])
        (cp ''out/a'') (cp ''me@example.com'')). snd ` set (snd f))"
proof -
  have h: "lower sample_lib (strip (cp '' HTTPS://Example.com '')) = cp ''https://example.com''"
    by (simp add: strip_def is_space_def lower_def ascii_lower_def cp_def)
  have c: "row_content \<lparr>row_msgplus = False, row_time = Some (cp ''(12:30)''),
      row_sender = Some (cp ''Jane D. :''), row_content = Some (cp '' HTTPS://Example.com '')\<rparr>
      = Some (cp '' HTTPS://Example.com '')"
    by simp
  have "lower sample_lib (strip (cp '' HTTPS://Example.com '')) = cp ''https://example.com''
      \<Longrightarrow> ?thesis"
    using noise_is_discarded [OF c, where L = sample_lib and d = "cp ''04.03.12''" and m = "[]"
        and user_identifier = "cp ''me@example.com''" and json_file_path = "cp ''out/a''"
        and soup = "Some [\<lparr>session_h2 = None, session_ul = None,
                session_tr = replicate 3
                  \<lparr>row_msgplus = False, row_time = Some (cp ''(12:30)''),
                   row_sender = Some (cp ''Jane D. :''),
                   row_content = Some (cp '' HTTPS://Example.com '')\<rparr>\<rparr>]"]
    by fastforce
  with h show ?thesis by blast
qed

section \<open>A session without a date\<close>

lemma session_timestamps:
  "x \<in> set (session_messages L u s) \<Longrightarrow> prefix (session_date_of L (session_h2 s)) (msg_timestamp x)"
  unfolding session_messages_def
  by (blast dest: in_map_filter process_row_fields(6))

lemma process_row_untimed:
  "map_option untimed (process_row L d m u r) = map_option untimed (process_row L d' m u r)"
  by (simp add: process_row_def Let_def untimed_def split: option.split)

lemma map_map_filter: "map f (List.map_filter g xs) = List.map_filter (\<lambda>x. map_option f (g x)) xs"
  by (induction xs) (simp_all split: option.split)

lemma session_messages_untimed:
  "map untimed (session_messages L u s) = map untimed (session_messages L u (s\<lparr>session_h2 := h\<rparr>))"
  unfolding session_messages_def map_map_filter
  by (simp add: process_row_untimed [of L "session_date_of L (session_h2 s)" _ _ _ "session_date_of L h"])

lemma turn_untimed: "snd (snd (untimed x)) = turn x"
  by (simp add: turn_def untimed_def)

text \<open>
  C8. When the text of the heading of a session has no match of the date pattern, or
  \<open>strptime\<close> raises \<open>ValueError\<close> on the match, the date of the session is
  \<open>UNKNOWN_DATE\<close>, the timestamp of each of its messages begins with \<open>UNKNOWN_DATE\<close>, and
  the senders, identifiers, labels and texts of its messages are those the session would
  have with any other heading \<open>h\<close>. The model has no error value here: the only exception
  the program can meet in this place is the one it catches.
\<close>

theorem unparseable_date_is_unknown:
  fixes s :: session
  assumes "session_h2 s = Some text"
    and "case date_search L text of
           None \<Rightarrow> True
         | Some date_part \<Rightarrow> py_strptime L (translate_months date_part) = None"
  shows "session_date_of L (session_h2 s) = UNKNOWN_DATE \<and>
         (\<forall>x \<in> set (session_messages L user_identifier s). prefix UNKNOWN_DATE (msg_timestamp x)) \<and>
         map untimed (session_messages L user_identifier s)
           = map untimed (session_messages L user_identifier (s\<lparr>session_h2 := h\<rparr>)) \<and>
         map turn (session_messages L user_identifier s)
           = map turn (session_messages L user_identifier (s\<lparr>session_h2 := h\<rparr>))"
proof -
  have d: "session_date_of L (session_h2 s) = UNKNOWN_DATE"
    using assms by (simp add: session_date_of_def split: option.splits)
  have t: "prefix UNKNOWN_DATE (msg_timestamp x)" if "x \<in> set (session_messages L user_identifier s)" for x
    using session_timestamps [OF that] d by simp
  have u: "map untimed (session_messages L user_identifier s)
           = map untimed (session_messages L user_identifier (s\<lparr>session_h2 := h\<rparr>))"
    by (rule session_messages_untimed)
  have "map (\<lambda>x. snd (snd x)) (map untimed (session_messages L user_identifier s))
      = map (\<lambda>x. snd (snd x))
          (map untimed (session_messages L user_identifier (s\<lparr>session_h2 := h\<rparr>)))"
    by (simp only: u)
  then have "map turn (session_messages L user_identifier s)
           = map turn (session_messages L user_identifier (s\<lparr>session_h2 := h\<rparr>))"
    by (simp add: comp_def turn_untimed)
  with d t u show ?thesis by blast
qed

theorem unparseable_date_is_unknown_witness:
  "(case date_search sample_lib (cp ''Session du 32 mars 2004'') of
      None \<Rightarrow> True
    | Some date_part \<Rightarrow> py_strptime sample_lib (translate_months date_part) = None) \<and>
   session_date_of sample_lib (Some (cp ''Session du 32 mars 2004'')) = UNKNOWN_DATE \<and>
   list_all (\<lambda>x. prefix UNKNOWN_DATE (msg_timestamp x))
     (session_messages sample_lib (cp ''Jane.Doe@Example.com'')
        \<lparr>session_h2 = Some (cp ''Session du 32 mars 2004''),
         session_ul = Some [cp ''Jane Doe (jane.doe@example.com)''],
         session_tr = [\<lparr>row_msgplus = False, row_time = Some (cp ''(12:30)''),
                        row_sender = Some (cp ''Jane D. :''),
                        row_content = Some (cp ''hello'')\<rparr>]\<rparr>)"
proof -
  have a: "session_h2 \<lparr>session_h2 = Some (cp ''Session du 32 mars 2004''),
                  session_ul = Some [cp ''Jane Doe (jane.doe@example.com)''],
                  session_tr = [\<lparr>row_msgplus = False, row_time = Some (cp ''(12:30)''),
                                 row_sender = Some (cp ''Jane D. :''),
                                 row_content = Some (cp ''hello'')\<rparr>]\<rparr>
           = Some (cp ''Session du 32 mars 2004'')"
    by simp
  have b: "case date_search sample_lib (cp ''Session du 32 mars 2004'') of
      None \<Rightarrow> True
    | Some date_part \<Rightarrow> py_strptime sample_lib (translate_months date_part) = None"
    by (simp add: bad_date_search bad_date_translated sample_lib_def)
  from unparseable_date_is_unknown [OF a b, of "cp ''Jane.Doe@Example.com''"] b show ?thesis
    by (simp add: list_all_iff)
qed

section \<open>The roster entry of Jane Doe\<close>

lemma register_other: "k \<noteq> name \<Longrightarrow> map_of (register name ident m) k = map_of m k"
  by (simp add: register_def map_add_def split: option.split)

lemma register_absent:
  "name \<noteq> [] \<Longrightarrow> map_of m name = None \<Longrightarrow> map_of (register name ident m) name = Some ident"
  by (simp add: register_def dict_has_def map_add_def)

lemma add_participant_other:
  "k \<notin> set (entry_keys L e) \<Longrightarrow> map_of (add_participant L m e) k = map_of m k"
  by (cases "identifier_match e")
     (simp_all add: entry_keys_def add_participant_def Let_def register_other)

lemma foldl_other:
  "\<forall>e \<in> set lis. k \<notin> set (entry_keys L e) \<Longrightarrow>
     map_of (foldl (add_participant L) m lis) k = map_of m k"
  by (induction lis arbitrary: m) (simp_all add: add_participant_other)

lemma jane_doe_keys:
  "entry_keys L (cp ''Jane Doe (jane.doe@example.com)'') = [cp ''jane doe'', cp ''jane doe'', cp ''jane'']"
  by (simp add: entry_keys_def jane_doe_match jane_doe_display jane_doe_lower jane_doe_clean
      jane_doe_first Let_def)

lemma add_jane_doe_first_name:
  assumes "map_of m (cp ''jane'') = None"
  shows "map_of (add_participant L m (cp ''Jane Doe (jane.doe@example.com)'')) (cp ''jane'')
           = Some (cp ''jane.doe@example.com'')"
  unfolding add_jane_doe using assms
  by (intro register_absent) (simp_all add: register_other)

text \<open>
  C7, as the program has it. The roster contains the entry
  \<open>Jane Doe (jane.doe@example.com)\<close> and no other entry of the roster yields the key
  \<open>jane d\<close> or the key \<open>jane\<close>. Then a message whose sender cell reads \<open>Jane D. :\<close> is
  attributed to \<open>jane.doe@example.com\<close>, by the lookup of the first token \<open>jane\<close>, the
  heavily normalized text \<open>jane d\<close> being no key of the map.
\<close>

theorem jane_d_resolves_to_jane_doe:
  assumes "cp ''Jane Doe (jane.doe@example.com)'' \<in> set lis"
    and "\<forall>e \<in> set lis. e \<noteq> cp ''Jane Doe (jane.doe@example.com)'' \<longrightarrow>
           cp ''jane d'' \<notin> set (entry_keys L e) \<and> cp ''jane'' \<notin> set (entry_keys L e)"
    and "row_sender r = Some (cp ''Jane D. :'')"
    and "process_row L d (canonical_participant_map L (Some lis)) user_identifier r = Some x"
  shows "msg_identifier x = Some (cp ''jane.doe@example.com'') \<and>
         \<not> dict_has (canonical_participant_map L (Some lis)) (clean_display_name L (msg_sender x)) \<and>
         map_of (canonical_participant_map L (Some lis))
           (first_token (clean_display_name L (msg_sender x))) = Some (cp ''jane.doe@example.com'')"
proof -
  let ?jane = "cp ''Jane Doe (jane.doe@example.com)''"
  let ?m = "canonical_participant_map L (Some lis)"
  from assms(1) obtain before after where
    lis: "lis = before @ ?jane # after" and "?jane \<notin> set before"
    by (auto dest: split_list_first)
  have "cp ''jane'' \<notin> set (entry_keys L e)" if "e \<in> set before" for e
  proof -
    from that \<open>?jane \<notin> set before\<close> have "e \<noteq> ?jane" by blast
    moreover from that have "e \<in> set lis" by (simp add: lis)
    ultimately show ?thesis using assms(2) by blast
  qed
  then have "map_of (foldl (add_participant L) [] before) (cp ''jane'') = None"
    by (simp add: foldl_other)
  then have "map_of (add_participant L (foldl (add_participant L) [] before) ?jane) (cp ''jane'')
               = Some (cp ''jane.doe@example.com'')"
    by (rule add_jane_doe_first_name)
  then have first: "map_of ?m (cp ''jane'') = Some (cp ''jane.doe@example.com'')"
    by (simp add: canonical_participant_map_def lis map_of_foldl_keep)
  have "\<forall>e \<in> set lis. cp ''jane d'' \<notin> set (entry_keys L e)"
    using assms(2) by (auto simp add: jane_doe_keys)
  then have heavy: "map_of ?m (cp ''jane d'') = None"
    by (simp add: canonical_participant_map_def foldl_other)
  from process_row_fields(5) [OF assms(4)] assms(3) have sender: "msg_sender x = cp ''Jane D.''"
    by (simp add: jane_d_sender)
  from process_row_fields(1) [OF assms(4)] have "msg_identifier x = identify_sender L ?m (cp ''Jane D.'')"
    by (simp add: sender)
  with first heavy have "msg_identifier x = Some (cp ''jane.doe@example.com'')"
    by (simp add: identify_sender_def jane_d_clean jane_d_first dict_has_def)
  with first heavy show ?thesis
    by (simp add: sender jane_d_clean jane_d_first dict_has_def)
qed

theorem jane_d_resolves_to_jane_doe_witness:
  "cp ''Jane Doe (jane.doe@example.com)'' \<in> set [cp ''Bob Smith'', cp ''Jane Doe (jane.doe@example.com)''] \<and>
   cp ''jane d'' \<notin> set (entry_keys sample_lib (cp ''Bob Smith'')) \<and>
   cp ''jane'' \<notin> set (entry_keys sample_lib (cp ''Bob Smith'')) \<and>
   process_row sample_lib (cp ''04.03.12'')
     (canonical_participant_map sample_lib
        (Some [cp ''Bob Smith'', cp ''Jane Doe (jane.doe@example.com)'']))
     (cp ''Jane.Doe@Example.com'')
     \<lparr>row_msgplus = False, row_time = Some (cp ''(12:30)''),
      row_sender = Some (cp ''Jane D. :''), row_content = Some (cp ''hello'')\<rparr>
   = Some \<lparr>msg_timestamp = cp ''04.03.12'' @ cp '', '' @ cp ''12:30:00'', msg_sender = cp ''Jane D.'',
            msg_identifier = Some (cp ''jane.doe@example.com''), msg_from = cp ''gpt'',
            msg_value = cp ''hello''\<rparr> \<and>
   map_of (canonical_participant_map sample_lib
             (Some [cp ''Bob Smith'', cp ''Jane Doe (jane.doe@example.com)'']))
     (first_token (clean_display_name sample_lib (cp ''Jane D.''))) = Some (cp ''jane.doe@example.com'')"
proof -
  let ?lis = "[cp ''Bob Smith'', cp ''Jane Doe (jane.doe@example.com)'']"
  let ?r = "\<lparr>row_msgplus = False, row_time = Some (cp ''(12:30)''),
      row_sender = Some (cp ''Jane D. :''), row_content = Some (cp ''hello'')\<rparr>"
  have k: "entry_keys sample_lib (cp ''Bob Smith'') = [cp ''bob smith'']"
    by (simp add: entry_keys_def bob_smith_match bob_smith_clean)
  have a: "cp ''Jane Doe (jane.doe@example.com)'' \<in> set ?lis"
    by simp
  have b: "\<forall>e \<in> set ?lis. e \<noteq> cp ''Jane Doe (jane.doe@example.com)'' \<longrightarrow>
           cp ''jane d'' \<notin> set (entry_keys sample_lib e) \<and> cp ''jane'' \<notin> set (entry_keys sample_lib e)"
    by (simp add: k)
  have c: "row_sender ?r = Some (cp ''Jane D. :'')"
    by simp
  have m: "canonical_participant_map sample_lib (Some ?lis) =
     [(cp ''bob smith'', cp ''bob smith''), (cp ''jane doe'', cp ''jane.doe@example.com''),
      (cp ''jane'', cp ''jane.doe@example.com'')]"
    unfolding canonical_participant_map_def
    by (simp add: add_jane_doe add_bob_smith, simp add: register_def dict_has_def)
  have i: "identify_sender sample_lib
     [(cp ''bob smith'', cp ''bob smith''), (cp ''jane doe'', cp ''jane.doe@example.com''),
      (cp ''jane'', cp ''jane.doe@example.com'')] (cp ''Jane D.'') = Some (cp ''jane.doe@example.com'')"
    by (simp add: identify_sender_def jane_d_clean jane_d_first jane_d_lower dict_has_def)
  have p: "process_row sample_lib (cp ''04.03.12'') (canonical_participant_map sample_lib (Some ?lis))
     (cp ''Jane.Doe@Example.com'') ?r
   = Some \<lparr>msg_timestamp = cp ''04.03.12'' @ cp '', '' @ cp ''12:30:00'', msg_sender = cp ''Jane D.'',
            msg_identifier = Some (cp ''jane.doe@example.com''), msg_from = cp ''gpt'',
            msg_value = cp ''hello''\<rparr>"
    unfolding m
    by (simp add: process_row_def jane_d_sender hello_not_noise format_time_12_30 i
        from_field_def user_lower jane_doe_identifier)
  from jane_d_resolves_to_jane_doe [OF a b c p] a k p show ?thesis
    by simp
qed

text \<open>
  Counterexample to C7 as it was stated: with \<open>Jane Smith (jane.smith@example.com)\<close> earlier
  in the roster, the key \<open>jane\<close> belongs to that entry, and the same sender cell is
  attributed to \<open>jane.smith@example.com\<close>.
\<close>

theorem jane_d_resolves_to_jane_smith:
  "cp ''Jane Doe (jane.doe@example.com)''
     \<in> set [cp ''Jane Smith (jane.smith@example.com)'', cp ''Jane Doe (jane.doe@example.com)''] \<and>
   identify_sender sample_lib
     (canonical_participant_map sample_lib
        (Some [cp ''Jane Smith (jane.smith@example.com)'', cp ''Jane Doe (jane.doe@example.com)'']))
     (strip (rstrip_char 58 (cp ''Jane D. :'')))
   = Some (cp ''jane.smith@example.com'') \<and>
   identify_sender sample_lib
     (canonical_participant_map sample_lib
        (Some [cp ''Jane Smith (jane.smith@example.com)'', cp ''Jane Doe (jane.doe@example.com)'']))
     (strip (rstrip_char 58 (cp ''Jane D. :'')))
   \<noteq> Some (cp ''jane.doe@example.com'')"
  by (simp add: two_janes_map jane_d_sender identify_sender_def jane_d_clean jane_d_first
      jane_d_lower dict_has_def)

section \<open>Normalizing a normalized name\<close>

subsection \<open>What the steps keep\<close>

lemma set_replace_from: "set (replace_from k old new s) \<subseteq> set s \<union> set new"
  by (induction s arbitrary: k) auto

lemma set_sub_annotations_from: "set (sub_annotations_from k s) \<subseteq> set s"
  by (induction s arbitrary: k) (auto split: option.splits)

lemma set_strip: "set (strip s) \<subseteq> set s"
  by (auto simp add: strip_def dest!: set_dropWhileD)

lemma set_sub_spaces_from:
  "c \<in> set (sub_spaces_from b s) \<Longrightarrow> c = 32 \<or> (c \<in> set s \<and> \<not> is_space c)"
  by (induction s arbitrary: b) (auto split: if_splits)

lemma lower_from_ascii: "list_all (\<lambda>c. c < 128) s \<Longrightarrow> lower_from L pre s = map ascii_lower s"
  by (induction s arbitrary: pre) simp_all

subsection \<open>Single spaces and trimmed ends\<close>

lemma single_spaced_tail: "single_spaced (a # s) \<Longrightarrow> single_spaced s"
  by (cases s) simp_all

lemma single_spaced_dropWhile: "single_spaced s \<Longrightarrow> single_spaced (dropWhile P s)"
  by (induction s) (auto dest: single_spaced_tail)

lemma single_spaced_take: "single_spaced s \<Longrightarrow> single_spaced (take n s)"
proof (induction s arbitrary: n)
  case Nil
  show ?case by simp
next
  case (Cons a s)
  from Cons.prems have tail: "single_spaced s"
    by (rule single_spaced_tail)
  show ?case
  proof (cases n)
    case 0
    then show ?thesis by simp
  next
    case (Suc k)
    from Cons.IH [OF tail] have ih: "single_spaced (take k s)" .
    show ?thesis
    proof (cases s)
      case Nil
      with Suc show ?thesis by simp
    next
      case s: (Cons b cs)
      show ?thesis
      proof (cases k)
        case 0
        with Suc show ?thesis by simp
      next
        case k: (Suc j)
        from Cons.prems ih show ?thesis
          unfolding Suc s k by simp
      qed
    qed
  qed
qed

lemma rstrip_is_take: "\<exists>n. rev (dropWhile P (rev t)) = take n t"
  by (metis dropWhile_eq_drop drop_rev rev_rev_ident)

lemma single_spaced_strip: "single_spaced s \<Longrightarrow> single_spaced (strip s)"
proof -
  assume "single_spaced s"
  then have "single_spaced (dropWhile is_space s)"
    by (rule single_spaced_dropWhile)
  moreover obtain n where "strip s = take n (dropWhile is_space s)"
    unfolding strip_def using rstrip_is_take by blast
  ultimately show ?thesis by (simp add: single_spaced_take)
qed

lemma last_dropWhile: "dropWhile P s \<noteq> [] \<Longrightarrow> last (dropWhile P s) = last s"
  by (induction s) (auto split: if_splits)

lemma strip_ends:
  assumes "strip s \<noteq> []"
  shows "\<not> is_space (hd (strip s)) \<and> \<not> is_space (last (strip s))"
proof -
  let ?u = "dropWhile is_space s"
  let ?w = "dropWhile is_space (rev ?u)"
  from assms have w: "?w \<noteq> []" by (simp add: strip_def)
  then have u: "?u \<noteq> []" by (cases "dropWhile is_space s") simp_all
  have "last (strip s) = hd ?w"
    using w by (simp add: strip_def last_rev)
  moreover have "\<not> is_space (hd ?w)"
    using w by (rule hd_dropWhile)
  moreover have "hd (strip s) = last ?w"
    using w by (simp add: strip_def hd_rev)
  moreover have "last ?w = last (rev ?u)"
    using w by (rule last_dropWhile)
  moreover have "last (rev ?u) = hd ?u"
    using u by (simp add: last_rev)
  moreover have "\<not> is_space (hd ?u)"
    using u by (rule hd_dropWhile)
  ultimately show ?thesis by simp
qed

lemma strip_trimmed:
  assumes "s \<noteq> [] \<Longrightarrow> \<not> is_space (hd s) \<and> \<not> is_space (last s)"
  shows "strip s = s"
proof (cases "s = []")
  case True
  then show ?thesis by (simp add: strip_def)
next
  case False
  with assms have h: "\<not> is_space (hd s)" and l: "\<not> is_space (last s)" by simp_all
  from False h have "dropWhile is_space s = s"
    by (cases s) simp_all
  moreover from False l have "dropWhile is_space (rev s) = rev s"
    by (cases "rev s") (simp_all add: last_rev [symmetric] hd_rev)
  ultimately show ?thesis by (simp add: strip_def)
qed

lemma single_spaced_sub_spaces:
  "single_spaced (sub_spaces_from b s) \<and>
   (b \<longrightarrow> sub_spaces_from b s = [] \<or> \<not> is_space (hd (sub_spaces_from b s)))"
proof (induction s arbitrary: b)
  case Nil
  show ?case by simp
next
  case (Cons c s)
  have space32: "is_space 32" by (simp add: is_space_def)
  show ?case
  proof (cases "is_space c")
    case True
    with Cons [of True] space32 show ?thesis
      by (cases "sub_spaces_from True s") auto
  next
    case False
    with Cons [of False] show ?thesis
      by (cases "sub_spaces_from False s") auto
  qed
qed

lemma single_spaced_map:
  assumes "\<And>c. is_space (f c) = is_space c"
  shows "single_spaced (map f s) = single_spaced s"
  by (induction s rule: single_spaced.induct) (simp_all add: assms)

subsection \<open>A normalized name is a fixed point\<close>

lemma replace_absent: "old \<noteq> [] \<Longrightarrow> hd old \<notin> set s \<Longrightarrow> replace_from 0 old new s = s"
proof (induction s)
  case Nil
  show ?case by simp
next
  case (Cons c s)
  from Cons.prems have "\<not> prefix old (c # s)"
    by (cases old) auto
  with Cons show ?case by simp
qed

lemma annotation_match_none:
  assumes "\<forall>c \<in> set t. \<not> is_dash c \<and> c \<noteq> 91 \<and> c \<noteq> 40 \<and> c \<noteq> 58"
  shows "annotation_match t = None"
proof (cases "dropWhile is_space t")
  case Nil
  show ?thesis
    unfolding annotation_match_def Let_def Nil by simp
next
  case (Cons c cs)
  then have "c \<in> set t"
    by (metis list.set_intros(1) set_dropWhileD)
  with assms have "\<not> is_dash c \<and> c \<noteq> 91 \<and> c \<noteq> 40 \<and> c \<noteq> 58"
    by blast
  then show ?thesis
    unfolding annotation_match_def Let_def Cons by simp
qed

lemma sub_annotations_none:
  "\<forall>c \<in> set s. \<not> is_dash c \<and> c \<noteq> 91 \<and> c \<noteq> 40 \<and> c \<noteq> 58 \<Longrightarrow> sub_annotations_from 0 s = s"
proof (induction s)
  case Nil
  show ?case by simp
next
  case (Cons c s)
  then have "annotation_match (c # s) = None"
    by (intro annotation_match_none) simp
  with Cons show ?case by simp
qed

lemma sub_spaces_fixed:
  assumes "single_spaced s" and "\<forall>c \<in> set s. is_space c \<longrightarrow> c = 32"
    and "b \<longrightarrow> s = [] \<or> \<not> is_space (hd s)"
  shows "sub_spaces_from b s = s"
  using assms
proof (induction s arbitrary: b)
  case Nil
  show ?case by simp
next
  case (Cons c s)
  from Cons.prems(1) have tail: "single_spaced s" by (rule single_spaced_tail)
  show ?case
  proof (cases "is_space c")
    case True
    have c32: "c = 32" using Cons.prems(2) True by simp
    have nb: "\<not> b" using Cons.prems(3) True by simp
    have "s = [] \<or> \<not> is_space (hd s)"
      using Cons.prems(1) True by (cases s) simp_all
    then have "sub_spaces_from True s = s"
      using Cons.prems(2) tail by (intro Cons.IH) simp_all
    with True c32 nb show ?thesis by simp
  next
    case False
    have "sub_spaces_from False s = s"
      using Cons.prems(2) tail by (intro Cons.IH) simp_all
    with False show ?thesis by simp
  qed
qed

lemma lower_word_facts:
  assumes "is_lower_word c \<or> c = 32"
  shows "c < 128" and "ascii_lower c = c" and "is_word L c \<or> is_space c"
    and "is_space c \<longrightarrow> c = 32" and "\<not> is_dash c" and "c \<noteq> 91" and "c \<noteq> 40" and "c \<noteq> 58"
    and "c \<noteq> 38"
  using assms
  by (auto simp add: is_lower_word_def ascii_lower_def is_word_def is_alnum_def is_space_def
      is_dash_def)

lemma normal_name_fixed:
  assumes "normal_name s"
  shows "clean_display_name L s = s"
proof -
  from assms have chars: "\<forall>c \<in> set s. is_lower_word c \<or> c = 32"
    and spaced: "single_spaced s"
    and ends: "s \<noteq> [] \<longrightarrow> hd s \<noteq> 32 \<and> last s \<noteq> 32"
    by (simp_all add: normal_name_def list_all_iff)
  have "38 \<notin> set s"
    using chars lower_word_facts(9) by blast
  then have r: "replace (cp ''&lt;'') (cp ''<'') s = s" "replace (cp ''&gt;'') (cp ''>'') s = s"
    by (simp_all add: replace_def replace_absent cp_def)
  have "s \<noteq> [] \<Longrightarrow> \<not> is_space (hd s) \<and> \<not> is_space (last s)"
    using chars ends lower_word_facts(4) by (metis hd_in_set last_in_set)
  then have t: "strip s = s"
    by (rule strip_trimmed)
  have a: "sub_annotations s = s"
    unfolding sub_annotations_def
    using chars lower_word_facts(5-8) by (intro sub_annotations_none) blast
  have f: "sub_special L s = s"
    unfolding sub_special_def
    using chars lower_word_facts(3) by (intro filter_True) blast
  have p: "sub_spaces s = s"
    unfolding sub_spaces_def
    using spaced chars lower_word_facts(4) by (intro sub_spaces_fixed) auto
  have "list_all (\<lambda>c. c < 128) s"
    using chars lower_word_facts(1) by (auto simp add: list_all_iff)
  then have "lower L s = map ascii_lower s"
    by (simp add: lower_def lower_from_ascii)
  also have "\<dots> = s"
    using chars lower_word_facts(2) by (intro map_idI) blast
  finally have l: "lower L s = s" .
  show ?thesis
    by (simp add: clean_display_name_def Let_def r t a f p l)
qed

subsection \<open>The normalized name has the normal shape\<close>

lemma ascii_word_lower: "c < 128 \<Longrightarrow> is_word L c \<Longrightarrow> is_lower_word (ascii_lower c)"
  by (auto simp add: is_word_def is_alnum_def is_lower_word_def ascii_lower_def)

lemma ascii_lower_space: "is_space (ascii_lower c) = is_space c"
  by (auto simp add: ascii_lower_def is_space_def)

lemma ascii_words_normal:
  assumes "\<forall>c \<in> set s. is_word L c \<longrightarrow> c < 128"
  shows "normal_name (clean_display_name L s)"
proof -
  define c1 where "c1 = strip (replace (cp ''&gt;'') (cp ''>'') (replace (cp ''&lt;'') (cp ''<'') s))"
  define c2 where "c2 = strip (sub_annotations c1)"
  define c3 where "c3 = strip (sub_special L c2)"
  define y where "y = sub_spaces c3"
  define z where "z = strip y"
  have out: "clean_display_name L s = lower L z"
    by (simp add: clean_display_name_def Let_def c1_def c2_def c3_def y_def z_def)
  have "set c1 \<subseteq> set s \<union> {60, 62}"
    unfolding c1_def replace_def
    using set_strip set_replace_from [of 0 "cp ''&gt;''" "cp ''>''"]
      set_replace_from [of 0 "cp ''&lt;''" "cp ''<''" s]
    by (fastforce simp add: cp_def)
  moreover have "set c2 \<subseteq> set c1"
    unfolding c2_def sub_annotations_def
    using set_strip set_sub_annotations_from by blast
  moreover have "set c3 \<subseteq> {c \<in> set c2. is_word L c \<or> is_space c}"
    unfolding c3_def sub_special_def
    using set_strip [of "filter (\<lambda>c. is_word L c \<or> is_space c) c2"] by auto
  moreover have "\<not> is_word L 60 \<and> \<not> is_word L 62 \<and> \<not> is_space 60 \<and> \<not> is_space 62"
    by (simp add: is_word_def is_alnum_def is_space_def)
  ultimately have c3: "\<forall>c \<in> set c3. (is_word L c \<and> c < 128) \<or> is_space c"
    using assms by blast
  have "\<forall>c \<in> set y. c = 32 \<or> (is_word L c \<and> c < 128)"
    unfolding y_def sub_spaces_def
    using c3 set_sub_spaces_from by blast
  then have z: "\<forall>c \<in> set z. c = 32 \<or> (is_word L c \<and> c < 128)"
    unfolding z_def using set_strip by blast
  then have "list_all (\<lambda>c. c < 128) z"
    by (auto simp add: list_all_iff)
  then have low: "lower L z = map ascii_lower z"
    by (simp add: lower_def lower_from_ascii)
  have "is_lower_word (ascii_lower c) \<or> ascii_lower c = 32" if "c \<in> set z" for c
  proof (cases "c = 32")
    case True
    then show ?thesis by (simp add: ascii_lower_def)
  next
    case False
    with z that have "is_word L c" and "c < 128" by blast+
    then show ?thesis by (simp add: ascii_word_lower)
  qed
  then have chars: "list_all (\<lambda>c. is_lower_word c \<or> c = 32) (map ascii_lower z)"
    by (simp add: list_all_iff)
  have "single_spaced y"
    unfolding y_def sub_spaces_def using single_spaced_sub_spaces by blast
  then have "single_spaced z"
    unfolding z_def by (rule single_spaced_strip)
  then have spaced: "single_spaced (map ascii_lower z)"
    by (simp add: single_spaced_map ascii_lower_space)
  have ends: "hd (map ascii_lower z) \<noteq> 32 \<and> last (map ascii_lower z) \<noteq> 32" if "z \<noteq> []"
  proof -
    from that have "\<not> is_space (hd z) \<and> \<not> is_space (last z)"
      unfolding z_def by (rule strip_ends)
    then have "\<not> is_space (ascii_lower (hd z)) \<and> \<not> is_space (ascii_lower (last z))"
      by (simp add: ascii_lower_space)
    moreover have "is_space 32"
      by (simp add: is_space_def)
    ultimately have "ascii_lower (hd z) \<noteq> 32 \<and> ascii_lower (last z) \<noteq> 32"
      by metis
    with that show ?thesis
      by (simp add: hd_map last_map)
  qed
  show ?thesis
    unfolding out low normal_name_def using chars spaced ends by simp
qed

text \<open>
  C5, as the program has it. For a string whose word characters (letters, digits,
  underscore) are all ASCII, whatever its other code points, normalizing the normalized
  name changes nothing.
\<close>

theorem clean_display_name_idempotent:
  assumes "\<forall>c \<in> set s. is_word L c \<longrightarrow> c < 128"
  shows "clean_display_name L (clean_display_name L s) = clean_display_name L s"
  using assms by (intro normal_name_fixed ascii_words_normal)

theorem clean_display_name_idempotent_witness:
  "list_all (\<lambda>c. is_word sample_lib c \<longrightarrow> c < 128)
     (cp ''  Jane   Doe [work] '' @ [8212] @ cp '' away'') \<and>
   clean_display_name sample_lib
     (clean_display_name sample_lib (cp ''  Jane   Doe [work] '' @ [8212] @ cp '' away''))
   = clean_display_name sample_lib (cp ''  Jane   Doe [work] '' @ [8212] @ cp '' away'')"
proof -
  have h: "\<forall>c \<in> set (cp ''  Jane   Doe [work] '' @ [8212] @ cp '' away'').
      is_word sample_lib c \<longrightarrow> c < 128"
    by (simp add: cp_def is_word_def is_alnum_def sample_lib_def)
  from clean_display_name_idempotent [OF h] h show ?thesis
    by (simp add: list_all_iff)
qed

text \<open>
  Counterexample to C5 as it was stated, beyond ASCII: the capital I with a dot above, U+0130,
  is a letter whose lower case is \<open>i\<close> followed by the combining dot U+0307, which is
  no word character; the first normalization gives these two code points and the second
  drops the dot.
\<close>

theorem clean_display_name_not_idempotent:
  "clean_display_name sample_lib (clean_display_name sample_lib [304])
     \<noteq> clean_display_name sample_lib [304] \<and>
   clean_display_name sample_lib [304] = [105, 775] \<and>
   clean_display_name sample_lib (clean_display_name sample_lib [304]) = [105]"
proof -
  have a: "clean_display_name sample_lib [304] = [105, 775]"
    by (simp add: clean_defs sample_lib_def)
  have b: "clean_display_name sample_lib [105, 775] = [105]"
    by (simp add: clean_defs sample_lib_def)
  from a b show ?thesis by simp
qed

end
